theory Spec2Isabelle
  imports Main "HOL-Library.AList"
begin

section \<open>JavaScript primitives used by the worker\<close>

text \<open>
  The worker (\<open>worker.js\<close>) is one handler, \<open>fetch(request, env)\<close>, with two routes:
  \<open>POST /log\<close> counts a click in a key-value store, \<open>GET /stats\<close> sums the counters of
  the last days. This theory embeds the handler and the platform functions it calls, and
  proves what the handler does to the store and what it answers.

  Strings are lists of code units; \<^typ>\<open>char\<close> covers the code units 0..255.
\<close>

subsection \<open>Numbers\<close>

text \<open>
  A JavaScript number is an IEEE double. The numbers the worker computes with come from
  \<open>parseInt\<close> and from adding such numbers, so they are \<open>NaN\<close>, an infinity, or an
  integer that a double represents: \<open>Fin n\<close>. \<open>to_f64\<close> rounds a mathematical integer to
  the nearest double (ties to the even significand, overflow to infinity); integers up to
  \<open>2^53\<close> in magnitude are doubles themselves. Negative zero is not kept apart from zero:
  the worker replaces every zero it parses by \<open>0\<close> (\<open>|| 0\<close>, \<open>|| 7\<close>) before it uses it.
\<close>

datatype js_num = NaN | PosInf | NegInf | Fin int

fun bitlen :: "nat \<Rightarrow> nat" where
  "bitlen n = (if n = 0 then 0 else Suc (bitlen (n div 2)))"

declare bitlen.simps [simp del]

definition round53 :: "nat \<Rightarrow> nat" where
  \<comment> \<open>the nearest natural number with at most 53 significant bits, ties to even\<close>
  "round53 n =
     (if n \<le> 2 ^ 53 then n
      else (let e = bitlen n - 53;
                q = n div 2 ^ e;
                r = n mod 2 ^ e;
                h = 2 ^ (e - 1)
            in (if h < r \<or> (r = h \<and> odd q) then q + 1 else q) * 2 ^ e))"

definition to_f64 :: "int \<Rightarrow> js_num" where
  "to_f64 n =
     (let m = round53 (nat \<bar>n\<bar>) in
      if 2 ^ 1024 \<le> m then (if n < 0 then NegInf else PosInf)
      else Fin (if n < 0 then - int m else int m))"

fun num_add :: "js_num \<Rightarrow> js_num \<Rightarrow> js_num" where
  \<comment> \<open>\<open>a + b\<close> on numbers\<close>
  "num_add (Fin a) (Fin b) = to_f64 (a + b)"
| "num_add NaN b = NaN"
| "num_add a NaN = NaN"
| "num_add PosInf NegInf = NaN"
| "num_add NegInf PosInf = NaN"
| "num_add PosInf b = PosInf"
| "num_add NegInf b = NegInf"
| "num_add a PosInf = PosInf"
| "num_add a NegInf = NegInf"

fun falsy :: "js_num \<Rightarrow> bool" where
  "falsy NaN = True"
| "falsy (Fin n) = (n = 0)"
| "falsy PosInf = False"
| "falsy NegInf = False"

subsection \<open>\<open>parseInt\<close>\<close>

definition is_ws :: "char \<Rightarrow> bool" where
  \<comment> \<open>the white space \<open>parseInt\<close> skips: TAB, LF, VT, FF, CR, SP, NBSP\<close>
  "is_ws c = (of_char c \<in> {9::nat, 10, 11, 12, 13, 32, 160})"

definition is_digit :: "char \<Rightarrow> bool" where
  "is_digit c = (48 \<le> (of_char c :: nat) \<and> (of_char c :: nat) \<le> 57)"

definition digit_val :: "char \<Rightarrow> nat" where
  "digit_val c = of_char c - 48"

definition digits_val :: "string \<Rightarrow> nat" where
  "digits_val ds = foldl (\<lambda>a c. 10 * a + digit_val c) 0 ds"

definition parseInt10 :: "string \<Rightarrow> js_num" where
  \<comment> \<open>\<open>parseInt(s, 10)\<close>. Leading white space is skipped, one sign is read, then the
      longest run of decimal digits; anything after it is ignored. No digit gives \<open>NaN\<close>,
      else the number is the double nearest to the integer the digits spell.\<close>
  "parseInt10 s =
     (let t = dropWhile is_ws s;
          neg = (t \<noteq> [] \<and> hd t = CHR ''-'');
          u = (if t \<noteq> [] \<and> (hd t = CHR ''-'' \<or> hd t = CHR ''+'') then tl t else t);
          ds = takeWhile is_digit u
      in if ds = [] then NaN
         else to_f64 (if neg then - int (digits_val ds) else int (digits_val ds)))"

subsection \<open>\<open>String(n)\<close>\<close>

definition digit_char :: "nat \<Rightarrow> char" where
  \<comment> \<open>the character of a digit \<open>d < 10\<close>\<close>
  "digit_char d = ''0123456789'' ! d"

fun dec :: "nat \<Rightarrow> string" where
  "dec n = (if n < 10 then [digit_char n] else dec (n div 10) @ [digit_char (n mod 10)])"

declare dec.simps [simp del]

text \<open>
  \<open>Number::toString\<close> prints the shortest digits \<open>s\<close> (\<open>k\<close> of them) and the exponent \<open>n\<close>
  with \<open>s * 10^(n - k)\<close> rounding to the number, the closest such \<open>s\<close> when several have
  \<open>k\<close> digits. For an integer up to \<open>2^53\<close> these are its own digits. Above, the
  candidates for \<open>k\<close> digits are the two multiples of \<open>10^(n - k)\<close> around the number,
  with \<open>n\<close> the number of its digits or one more; 17 digits always suffice. A number
  below \<open>10^21\<close> is printed as digits and zeros, a larger one with an exponent.
\<close>

definition cands :: "nat \<Rightarrow> nat \<Rightarrow> (nat \<times> nat) list" where
  \<comment> \<open>the pairs \<open>(s, n)\<close> of \<open>k\<close> digits that round to \<open>m\<close>\<close>
  "cands m k =
     filter (\<lambda>(s, n). 10 ^ (k - 1) \<le> s \<and> s < 10 ^ k \<and> to_f64 (int (s * 10 ^ (n - k))) = Fin (int m))
       (concat (map (\<lambda>n. if n < k then []
                          else [(m div 10 ^ (n - k), n), (m div 10 ^ (n - k) + 1, n)])
                  [length (dec m), length (dec m) + 1]))"

definition closer :: "nat \<Rightarrow> nat \<Rightarrow> (nat \<times> nat) \<Rightarrow> (nat \<times> nat) \<Rightarrow> (nat \<times> nat)" where
  \<comment> \<open>of two candidates of \<open>k\<close> digits the one nearer to \<open>m\<close>, the even one on a tie\<close>
  "closer m k c b =
     (let dc = \<bar>int (fst c * 10 ^ (snd c - k)) - int m\<bar>;
          db = \<bar>int (fst b * 10 ^ (snd b - k)) - int m\<bar>
      in if dc < db \<or> (dc = db \<and> even (fst c)) then c else b)"

definition shortest :: "nat \<Rightarrow> nat \<times> nat \<times> nat" where
  \<comment> \<open>\<open>(s, k, n)\<close> for a double \<open>m\<close> above \<open>2^53\<close>\<close>
  "shortest m =
     (case filter (\<lambda>k. cands m k \<noteq> []) [1..<18] of
        [] \<Rightarrow> (m, length (dec m), length (dec m))
      | k # ks \<Rightarrow>
          (case foldl (\<lambda>b c. closer m k c b) (hd (cands m k)) (tl (cands m k)) of
             (s, n) \<Rightarrow> (s, k, n)))"

definition nat_String :: "nat \<Rightarrow> string" where
  "nat_String m =
     (if m \<le> 2 ^ 53 then dec m
      else (case shortest m of
              (s, k, n) \<Rightarrow>
                if n \<le> 21 then dec s @ replicate (n - k) CHR ''0''
                else if k = 1 then dec s @ ''e+'' @ dec (n - 1)
                else take 1 (dec s) @ ''.'' @ drop 1 (dec s) @ ''e+'' @ dec (n - 1)))"

fun js_String :: "js_num \<Rightarrow> string" where
  \<comment> \<open>\<open>String(n)\<close>, and \<open>n.toString()\<close>\<close>
  "js_String NaN = ''NaN''"
| "js_String PosInf = ''Infinity''"
| "js_String NegInf = ''-Infinity''"
| "js_String (Fin n) = (if n < 0 then CHR ''-'' # nat_String (nat (- n)) else nat_String (nat n))"

declare js_String.simps(4) [simp del]


section \<open>The \<open>days\<close> parameter of \<open>/stats\<close>\<close>

definition stats_days :: "string option \<Rightarrow> int" where
  \<comment> \<open>line 42; the argument is \<open>url.searchParams.get("days")\<close>, \<open>None\<close> for \<open>null\<close>.
      \<open>Math.min(30, Infinity)\<close> is 30 and \<open>Math.max(1, -Infinity)\<close> is 1.\<close>
  "stats_days q =
     (let s = (case q of None \<Rightarrow> ''7'' | Some v \<Rightarrow> if v = [] then ''7'' else v) in
      case parseInt10 s of
        NaN \<Rightarrow> max 1 (min 30 7)
      | Fin k \<Rightarrow> max 1 (min 30 (if k = 0 then 7 else k))
      | PosInf \<Rightarrow> 30
      | NegInf \<Rightarrow> 1)"

section \<open>JSON values and their coercion to strings\<close>

text \<open>
  The value \<open>request.json()\<close> yields. \<open>JNum n\<close> is the number an integer literal \<open>n\<close>
  of the body parses to, the double \<open>to_f64 n\<close> (numbers with a fraction are not
  modelled); a \<open>JObj\<close> lists the own properties of the parsed object, each key once.
\<close>

datatype json =
    JNull
  | JBool bool
  | JNum int
  | JStr string
  | JArr "json list"
  | JObj "(string \<times> json) list"

datatype js_error = TypeError

fun truthy :: "json \<Rightarrow> bool" where
  "truthy JNull = False"
| "truthy (JBool b) = b"
| "truthy (JNum n) = (\<not> falsy (to_f64 n))"
| "truthy (JStr s) = (s \<noteq> [])"
| "truthy (JArr xs) = True"
| "truthy (JObj kvs) = True"

fun body_field :: "json \<Rightarrow> string \<Rightarrow> js_error + json option" where
  \<comment> \<open>\<open>body.name\<close> for the five names the worker reads (none of them is a property of a
      built-in prototype); \<open>Inr None\<close> is \<open>undefined\<close>. Reading a property of
      \<open>null\<close> throws.\<close>
  "body_field JNull name = Inl TypeError"
| "body_field (JObj kvs) name = Inr (map_of kvs name)"
| "body_field b name = Inr None"

fun js_toString :: "json \<Rightarrow> js_error + string"
  and join_elems :: "json list \<Rightarrow> js_error + string" where
  \<comment> \<open>\<open>v.toString()\<close>. An object parsed from JSON whose own property \<open>toString\<close> exists
      holds a value that is not callable there, so the call throws; an array joins its
      elements with commas, \<open>null\<close> elements printing as the empty string.\<close>
  "js_toString JNull = Inl TypeError"
| "js_toString (JBool b) = Inr (if b then ''true'' else ''false'')"
| "js_toString (JNum n) = Inr (js_String (to_f64 n))"
| "js_toString (JStr s) = Inr s"
| "js_toString (JArr xs) = join_elems xs"
| "js_toString (JObj kvs) =
     (if map_of kvs ''toString'' \<noteq> None then Inl TypeError else Inr ''[object Object]'')"
| "join_elems [] = Inr []"
| "join_elems (x # xs) =
     (case (if x = JNull then Inr [] else js_toString x) of
        Inl e \<Rightarrow> Inl e
      | Inr s \<Rightarrow>
          (if xs = [] then Inr s
           else (case join_elems xs of Inl e \<Rightarrow> Inl e | Inr r \<Rightarrow> Inr (s @ '','' @ r))))"

definition or_else :: "json option \<Rightarrow> json \<Rightarrow> json" where
  \<comment> \<open>\<open>v || d\<close>\<close>
  "or_else v d = (case v of None \<Rightarrow> d | Some x \<Rightarrow> if truthy x then x else d)"

definition field_string :: "json \<Rightarrow> string \<Rightarrow> json \<Rightarrow> js_error + string" where
  \<comment> \<open>\<open>(body.name || d).toString()\<close>\<close>
  "field_string b name d =
     (case body_field b name of
        Inl e \<Rightarrow> Inl e
      | Inr v \<Rightarrow> js_toString (or_else v d))"


section \<open>Dates\<close>

definition civil_from_days :: "int \<Rightarrow> int \<times> int \<times> int" where
  \<comment> \<open>year, month and day of the UTC calendar day that many days after 1970-01-01\<close>
  "civil_from_days z0 =
     (let z = z0 + 719468;
          era = z div 146097;
          doe = z mod 146097;
          yoe = (doe - doe div 1460 + doe div 36524 - doe div 146096) div 365;
          doy = doe - (365 * yoe + yoe div 4 - yoe div 100);
          mp = (5 * doy + 2) div 153;
          d = doy - (153 * mp + 2) div 5 + 1;
          m = (if mp < 10 then mp + 3 else mp - 9);
          y = yoe + era * 400
      in (if m \<le> 2 then y + 1 else y, m, d))"

definition pad :: "nat \<Rightarrow> int \<Rightarrow> string" where
  "pad w n = replicate (w - length (dec (nat n))) CHR ''0'' @ dec (nat n)"

definition iso_year :: "int \<Rightarrow> string" where
  "iso_year y =
     (if 0 \<le> y \<and> y \<le> 9999 then pad 4 y
      else (if y < 0 then ''-'' else ''+'') @ pad 6 \<bar>y\<bar>)"

definition toISOString :: "int \<Rightarrow> string" where
  \<comment> \<open>\<open>new Date(ms).toISOString()\<close>, for a time value in the range of valid dates
      (at most 8.64e15 ms from the epoch), where the clock and the 29 days before it lie\<close>
  "toISOString ms =
     (let t = ms mod 86400000 in
      case civil_from_days (ms div 86400000) of (y, m, d) \<Rightarrow>
        iso_year y @ ''-'' @ pad 2 m @ ''-'' @ pad 2 d @ ''T'' @
        pad 2 (t div 3600000) @ '':'' @ pad 2 (t div 60000 mod 60) @ '':'' @
        pad 2 (t div 1000 mod 60) @ ''.'' @ pad 3 (t mod 1000) @ ''Z'')"

definition days_from_civil :: "int \<Rightarrow> int \<Rightarrow> int \<Rightarrow> int" where
  \<comment> \<open>the day number of a year, month and day; a day past the end of the month runs
      into the next month\<close>
  "days_from_civil y0 m d =
     (let y = (if m \<le> 2 then y0 - 1 else y0);
          era = y div 400;
          yoe = y - era * 400;
          mp = (m + 9) mod 12;
          doy = (153 * mp + 2) div 5 + d - 1;
          doe = yoe * 365 + yoe div 4 - yoe div 100 + doy
      in era * 146097 + doe - 719468)"

definition utc_today :: "int \<Rightarrow> int" where
  \<comment> \<open>line 48: the day number of \<open>Date.UTC(year, month, date)\<close> of the clock.
      \<open>Date.UTC\<close> reads a year from 0 to 99 as 1900 plus that year.\<close>
  "utc_today now =
     (case civil_from_days (now div 86400000) of
        (y, m, d) \<Rightarrow> days_from_civil (if 0 \<le> y \<and> y \<le> 99 then 1900 + y else y) m d)"

definition stats_day :: "int \<Rightarrow> nat \<Rightarrow> string" where
  \<comment> \<open>lines 48-50: UTC midnight of today, moved back \<open>i\<close> days, printed, cut to 10\<close>
  "stats_day now i = take 10 (toISOString ((utc_today now - int i) * 86400000))"


section \<open>The Counter Store\<close>

text \<open>
  The key-value store the worker is bound to (\<open>env.CLICKS\<close>) is an external service.
  Its contract: \<open>get\<close> returns the value of a key or \<open>null\<close>, \<open>put\<close> replaces the
  value of a key (with an optional time to live, in seconds), \<open>list\<close> returns the names of
  the keys under a prefix a page at a time, with a cursor while more pages remain. The
  model keeps the entries in an association list, the page size, and the trace of the
  operations performed, so that "no store access" is a statement about the trace.
\<close>

record kv_entry =
  content :: string
  ttl :: "nat option"

datatype kv_op =
    KvGet string
  | KvPut string string "nat option"
  | KvList string "nat option"

record kv =
  entries :: "(string \<times> kv_entry) list"
  page_limit :: nat
  trace :: "kv_op list"

definition starts_with :: "string \<Rightarrow> string \<Rightarrow> bool" where
  "starts_with p k = (take (length p) k = p)"

definition lookup :: "kv \<Rightarrow> string \<Rightarrow> string option" where
  \<comment> \<open>the value a \<open>get\<close> would return, without performing one\<close>
  "lookup st k = map_option content (map_of (entries st) k)"

definition kv_get :: "kv \<Rightarrow> string \<Rightarrow> string option \<times> kv" where
  "kv_get st k = (lookup st k, st\<lparr>trace := trace st @ [KvGet k]\<rparr>)"

definition kv_put :: "kv \<Rightarrow> string \<Rightarrow> string \<Rightarrow> nat option \<Rightarrow> kv" where
  "kv_put st k v t =
     st\<lparr>entries := AList.update k \<lparr>content = v, ttl = t\<rparr> (entries st),
        trace := trace st @ [KvPut k v t]\<rparr>"

definition matching :: "kv \<Rightarrow> string \<Rightarrow> string list" where
  "matching st p = filter (starts_with p) (map fst (entries st))"

definition kv_list :: "kv \<Rightarrow> string \<Rightarrow> nat option \<Rightarrow> string list \<times> nat option \<times> kv" where
  \<comment> \<open>one page of at least one name; the cursor is the offset of the next page\<close>
  "kv_list st p cursor =
     (let off = (case cursor of None \<Rightarrow> 0 | Some c \<Rightarrow> c);
          nxt = off + max 1 (page_limit st)
      in (take (max 1 (page_limit st)) (drop off (matching st p)),
          if nxt < length (matching st p) then Some nxt else None,
          st\<lparr>trace := trace st @ [KvList p cursor]\<rparr>))"

definition count_of :: "string option \<Rightarrow> js_num" where
  \<comment> \<open>\<open>parseInt(v || "0", 10) || 0\<close> (lines 30 and 61)\<close>
  "count_of v =
     (let n = parseInt10 (case v of None \<Rightarrow> ''0'' | Some s \<Rightarrow> if s = [] then ''0'' else s)
      in if falsy n then Fin 0 else n)"


section \<open>The \<open>by_ad_id\<close> object\<close>

text \<open>
  \<open>by_ad_id\<close> starts as the object literal \<open>{}\<close>: its own properties are those the loop
  assigns, and reading a name it does not own falls through to \<open>Object.prototype\<close>.
  A property holds a number, or a string once something other than a number was added to.
\<close>

datatype jsval = Num js_num | Str string

definition inherited :: "string \<Rightarrow> string option" where
  \<comment> \<open>the members of \<open>Object.prototype\<close>, each by the string it converts to when added
      to a number: the source text of a built-in function, and \<open>[object Object]\<close> for
      the prototype itself, which the accessor \<open>__proto__\<close> returns\<close>
  "inherited a =
     (if a = ''__proto__'' then Some ''[object Object]''
      else if a = ''constructor'' then Some ''function Object() { [native code] }''
      else if a \<in> set [''__defineGetter__'', ''__defineSetter__'', ''hasOwnProperty'',
                ''__lookupGetter__'', ''__lookupSetter__'', ''isPrototypeOf'',
                ''propertyIsEnumerable'', ''toString'', ''valueOf'', ''toLocaleString'']
      then Some (''function '' @ a @ ''() { [native code] }'')
      else None)"

definition add_count :: "(string \<times> jsval) list \<Rightarrow> string \<Rightarrow> js_num \<Rightarrow> (string \<times> jsval) list" where
  \<comment> \<open>line 62: \<open>by_ad_id[ad_id] = (by_ad_id[ad_id] || 0) + v\<close>. Assigning to \<open>__proto__\<close>
      runs the prototype's setter, which ignores a string.\<close>
  "add_count obj a v =
     (case map_of obj a of
        Some (Num n) \<Rightarrow> AList.update a (Num (num_add (if falsy n then Fin 0 else n) v)) obj
      | Some (Str s) \<Rightarrow>
          AList.update a (if s = [] then Num (num_add (Fin 0) v) else Str (s @ js_String v)) obj
      | None \<Rightarrow>
          (case inherited a of
             None \<Rightarrow> AList.update a (Num (num_add (Fin 0) v)) obj
           | Some txt \<Rightarrow>
               if a = ''__proto__'' then obj else AList.update a (Str (txt @ js_String v)) obj))"


section \<open>Requests, responses and the handler\<close>

record request =
  req_method :: string
  req_path :: string
  req_authorization :: "string option"
  req_days :: "string option"
  req_json :: "json option"

text \<open>
  \<open>req_authorization\<close> is \<open>request.headers.get("authorization")\<close>, \<open>req_days\<close> is
  \<open>url.searchParams.get("days")\<close> (\<open>None\<close> for \<open>null\<close>), \<open>req_json\<close> is the value
  \<open>request.json()\<close> resolves to, \<open>None\<close> when it rejects.
\<close>

record env =
  STATS_TOKEN :: "string option"
  CLICKS :: kv

datatype resp_body = Text string | StatsJson int "(string \<times> jsval) list"

text \<open>
  \<open>StatsJson days by_ad_id\<close> is the value \<open>Response.json\<close> is given; its JSON text is not
  modelled (there a number that is \<open>NaN\<close> or infinite prints as \<open>null\<close>).
\<close>

record response =
  status :: nat
  body :: resp_body

record click_event =
  ts :: string
  ad_id :: string
  genre :: string
  page_id :: string
  page_url :: string

definition log_fields :: "int \<Rightarrow> json \<Rightarrow> js_error + click_event" where
  \<comment> \<open>lines 17-21, in order; the first coercion that throws ends the request\<close>
  "log_fields now b =
     (case field_string b ''ts'' (JStr (toISOString now)) of Inl e \<Rightarrow> Inl e | Inr t \<Rightarrow>
     (case field_string b ''ad_id'' (JStr []) of Inl e \<Rightarrow> Inl e | Inr a \<Rightarrow>
     (case field_string b ''genre'' (JStr []) of Inl e \<Rightarrow> Inl e | Inr g \<Rightarrow>
     (case field_string b ''page_id'' (JStr []) of Inl e \<Rightarrow> Inl e | Inr p \<Rightarrow>
     (case field_string b ''page_url'' (JStr []) of Inl e \<Rightarrow> Inl e | Inr u \<Rightarrow>
        Inr \<lparr>ts = t, ad_id = take 120 a, genre = take 80 g, page_id = take 80 p,
             page_url = take 300 u\<rparr>)))))"

definition hex_char :: "nat \<Rightarrow> char" where
  \<comment> \<open>the character of a hexadecimal digit \<open>d < 16\<close>, in lower case\<close>
  "hex_char d = ''0123456789abcdef'' ! d"

definition json_escape :: "char \<Rightarrow> string" where
  \<comment> \<open>one character of a string under \<open>JSON.stringify\<close>\<close>
  "json_escape c =
     (let n = (of_char c :: nat) in
      if n = 34 then [CHR 0x5C, CHR 0x22]
      else if n = 92 then [CHR 0x5C, CHR 0x5C]
      else if n = 8 then [CHR 0x5C, CHR ''b'']
      else if n = 9 then [CHR 0x5C, CHR ''t'']
      else if n = 10 then [CHR 0x5C, CHR ''n'']
      else if n = 12 then [CHR 0x5C, CHR ''f'']
      else if n = 13 then [CHR 0x5C, CHR ''r'']
      else if n < 32 then [CHR 0x5C, CHR ''u'', CHR ''0'', CHR ''0'', hex_char (n div 16), hex_char (n mod 16)]
      else [c])"

definition json_quote :: "string \<Rightarrow> string" where
  "json_quote s = CHR 0x22 # concat (map json_escape s) @ [CHR 0x22]"

definition meta_json :: "click_event \<Rightarrow> string" where
  \<comment> \<open>\<open>JSON.stringify({ genre, page_id, page_url })\<close>\<close>
  "meta_json f =
     ''{'' @ json_quote ''genre'' @ '':'' @ json_quote (genre f) @ '','' @
     json_quote ''page_id'' @ '':'' @ json_quote (page_id f) @ '','' @
     json_quote ''page_url'' @ '':'' @ json_quote (page_url f) @ ''}''"

definition counter_key :: "click_event \<Rightarrow> string" where
  \<comment> \<open>lines 26-27\<close>
  "counter_key f = ''click:'' @ take 10 (ts f) @ '':'' @ ad_id f"

definition meta_key :: "click_event \<Rightarrow> string" where
  "meta_key f = ''meta:'' @ ad_id f"

definition record_click :: "click_event \<Rightarrow> kv \<Rightarrow> kv" where
  \<comment> \<open>lines 30-34: read the counter, write it back incremented, write the metadata\<close>
  "record_click f st =
     (case kv_get st (counter_key f) of (v, st1) \<Rightarrow>
        (let cur = count_of v;
             st2 = kv_put st1 (counter_key f) (js_String (num_add cur (Fin 1))) None
         in kv_put st2 (meta_key f) (meta_json f) (Some (60 * 60 * 24 * 30))))"

definition handle_log :: "int \<Rightarrow> json option \<Rightarrow> kv \<Rightarrow> (js_error + response) \<times> kv" where
  \<comment> \<open>lines 10-36\<close>
  "handle_log now j st =
     (case j of
        None \<Rightarrow> (Inr \<lparr>status = 400, body = Text ''bad json''\<rparr>, st)
      | Some b \<Rightarrow>
          (case log_fields now b of
             Inl e \<Rightarrow> (Inl e, st)
           | Inr f \<Rightarrow>
               if ad_id f = [] then (Inr \<lparr>status = 400, body = Text ''missing ad_id''\<rparr>, st)
               else (Inr \<lparr>status = 200, body = Text ''ok''\<rparr>, record_click f st)))"

fun scan_keys :: "kv \<Rightarrow> string \<Rightarrow> string list \<Rightarrow> (string \<times> jsval) list \<Rightarrow> (string \<times> jsval) list \<times> kv" where
  \<comment> \<open>lines 59-63, the loop over one page of names\<close>
  "scan_keys st p [] acc = (acc, st)"
| "scan_keys st p (k # ks) acc =
     (case kv_get st k of (v, st1) \<Rightarrow>
        scan_keys st1 p ks (add_count acc (drop (length p) k) (count_of v)))"

lemma entries_scan_keys: "entries (snd (scan_keys st p ks acc)) = entries st"
  by (induction ks arbitrary: st acc) (simp_all add: kv_get_def)

lemma page_limit_scan_keys: "page_limit (snd (scan_keys st p ks acc)) = page_limit st"
  by (induction ks arbitrary: st acc) (simp_all add: kv_get_def)

function scan_prefix :: "kv \<Rightarrow> string \<Rightarrow> nat option \<Rightarrow> (string \<times> jsval) list \<Rightarrow> (string \<times> jsval) list \<times> kv" where
  \<comment> \<open>lines 55-64, the \<open>do ... while (cursor)\<close> loop over the pages of one prefix\<close>
  "scan_prefix st p cursor acc =
     (case kv_list st p cursor of (names, cursor', st1) \<Rightarrow>
        (case scan_keys st1 p names acc of (acc', st2) \<Rightarrow>
           (case cursor' of
              None \<Rightarrow> (acc', st2)
            | Some c \<Rightarrow> scan_prefix st2 p (Some c) acc')))"
  by pat_completeness auto
termination
proof (relation "measure (\<lambda>(st, p, cursor, acc).
          length (matching st p) - (case cursor of None \<Rightarrow> 0 | Some c \<Rightarrow> c))", goal_cases)
  case 1
  show ?case by simp
next
  case (2 st p cursor acc names y cursor' st1 acc' st2 c)
  have l: "kv_list st p cursor = (names, Some c, st1)"
    using 2 by simp
  have "entries st2 = entries st1"
    using 2 entries_scan_keys [of st1 p names acc] by (metis snd_conv)
  moreover have "entries st1 = entries st"
    using l by (auto simp: kv_list_def Let_def)
  ultimately have m: "matching st2 p = matching st p"
    by (simp add: matching_def)
  have "c < length (matching st p) \<and> (case cursor of None \<Rightarrow> 0 | Some c \<Rightarrow> c) < c"
    using l by (auto simp: kv_list_def Let_def split: if_splits option.splits)
  then show ?case using m by (auto split: option.splits)
qed

declare scan_prefix.simps [simp del]

definition day_prefix :: "int \<Rightarrow> nat \<Rightarrow> string" where
  \<comment> \<open>line 53\<close>
  "day_prefix now i = ''click:'' @ stats_day now i @ '':''"

definition scan_days :: "int \<Rightarrow> nat \<Rightarrow> kv \<Rightarrow> (string \<times> jsval) list \<times> kv" where
  \<comment> \<open>lines 44-65: \<open>for (let i = 0; i < days; i++)\<close>, starting from \<open>by_ad_id = {}\<close>\<close>
  "scan_days now days st =
     fold (\<lambda>i (acc, s). scan_prefix s (day_prefix now i) None acc) [0..<days] ([], st)"

definition isAuthed :: "request \<Rightarrow> env \<Rightarrow> bool" where
  \<comment> \<open>lines 6-7; an unset or empty token is falsy\<close>
  "isAuthed r e =
     (case STATS_TOKEN e of
        None \<Rightarrow> False
      | Some tok \<Rightarrow>
          tok \<noteq> [] \<and>
          (case req_authorization r of None \<Rightarrow> [] | Some a \<Rightarrow> if a = [] then [] else a) =
            ''Bearer '' @ tok)"

definition handle_stats :: "int \<Rightarrow> request \<Rightarrow> env \<Rightarrow> (js_error + response) \<times> kv" where
  \<comment> \<open>lines 40-67\<close>
  "handle_stats now r e =
     (if \<not> isAuthed r e then (Inr \<lparr>status = 401, body = Text ''unauthorized''\<rparr>, CLICKS e)
      else
        (let days = stats_days (req_days r) in
         case scan_days now (nat days) (CLICKS e) of (by_ad_id, st) \<Rightarrow>
           (Inr \<lparr>status = 200, body = StatsJson days by_ad_id\<rparr>, st)))"

definition fetch :: "int \<Rightarrow> request \<Rightarrow> env \<Rightarrow> (js_error + response) \<times> kv" where
  \<comment> \<open>the handler: the outcome (a response, or the exception it threw) and the store after\<close>
  "fetch now r e =
     (if req_path r = ''/log'' \<and> req_method r = ''POST'' then handle_log now (req_json r) (CLICKS e)
      else if req_path r = ''/stats'' \<and> req_method r = ''GET'' then handle_stats now r e
      else (Inr \<lparr>status = 404, body = Text ''not found''\<rparr>, CLICKS e))"


section \<open>Valid log requests, sequences of requests, the counter invariant\<close>

definition event_of :: "int \<Rightarrow> request \<Rightarrow> click_event option" where
  \<comment> \<open>the click event of a valid log request: \<open>POST /log\<close>, a body that parses, fields
      that coerce without an exception, and a non-empty \<open>ad_id\<close>\<close>
  "event_of now r =
     (if req_path r = ''/log'' \<and> req_method r = ''POST'' then
        (case req_json r of
           None \<Rightarrow> None
         | Some b \<Rightarrow>
             (case log_fields now b of
                Inl e \<Rightarrow> None
              | Inr f \<Rightarrow> if ad_id f = [] then None else Some f))
      else None)"

definition serve :: "env \<Rightarrow> int \<times> request \<Rightarrow> env" where
  \<comment> \<open>one request, received at the given time, handled to completion: the next request
      sees the store it left\<close>
  "serve e x = e\<lparr>CLICKS := snd (fetch (fst x) (snd x) e)\<rparr>"

definition serve_all :: "env \<Rightarrow> (int \<times> request) list \<Rightarrow> env" where
  \<comment> \<open>requests handled one after the other, none concurrently\<close>
  "serve_all e xs = foldl serve e xs"

fun is_put :: "kv_op \<Rightarrow> bool" where
  "is_put (KvPut k v t) = True"
| "is_put (KvGet k) = False"
| "is_put (KvList p c) = False"

definition is_count_string :: "string \<Rightarrow> bool" where
  \<comment> \<open>a non-negative integer in decimal\<close>
  "is_count_string s = (s \<noteq> [] \<and> list_all is_digit s)"

definition counter_key_ok :: "string \<Rightarrow> bool" where
  \<comment> \<open>for a key that starts with \<open>click:\<close>: the rest holds a colon that is not its last
      character, that is, the key reads \<open>click:<day>:<ad_id>\<close> with a non-empty \<open>ad_id\<close>\<close>
  "counter_key_ok k = (CHR '':'' \<in> set (butlast (drop 6 k)))"

definition store_inv :: "kv \<Rightarrow> bool" where
  \<comment> \<open>the invariant as the specification words it\<close>
  "store_inv st =
     list_all (\<lambda>(k, v). \<not> starts_with ''click:'' k \<or> (counter_key_ok k \<and> is_count_string (content v)))
       (entries st)"

definition store_inv53 :: "kv \<Rightarrow> bool" where
  \<comment> \<open>the same, with the count at most \<open>2^53\<close>\<close>
  "store_inv53 st =
     list_all (\<lambda>(k, v). \<not> starts_with ''click:'' k \<or>
                 (counter_key_ok k \<and> is_count_string (content v) \<and> digits_val (content v) \<le> 2 ^ 53))
       (entries st)"

definition plain_char :: "char \<Rightarrow> bool" where
  \<comment> \<open>a character that JSON text holds as it is: not a control character, not a double
      quote, not a backslash\<close>
  "plain_char c = (32 \<le> (of_char c :: nat) \<and> (of_char c :: nat) \<noteq> 34 \<and> (of_char c :: nat) \<noteq> 92)"

definition day_counts :: "kv \<Rightarrow> string \<Rightarrow> (string \<times> js_num) list" where
  \<comment> \<open>the counters under one prefix: the part of each name after the prefix, with the
      count stored under the name\<close>
  "day_counts st p = map (\<lambda>k. (drop (length p) k, count_of (lookup st k))) (matching st p)"

definition window_counts :: "int \<Rightarrow> nat \<Rightarrow> kv \<Rightarrow> (string \<times> js_num) list" where
  \<comment> \<open>the counters of the most recent \<open>days\<close> UTC dates, today first\<close>
  "window_counts now days st = concat (map (\<lambda>i. day_counts st (day_prefix now i)) [0..<days])"

definition add_all :: "(string \<times> jsval) list \<Rightarrow> (string \<times> js_num) list \<Rightarrow> (string \<times> jsval) list" where
  \<comment> \<open>line 62 run over a list of counters, in order\<close>
  "add_all obj cs = foldl (\<lambda>acc c. add_count acc (fst c) (snd c)) obj cs"

definition fin_count :: "string \<times> js_num \<Rightarrow> int" where
  "fin_count c = (case snd c of Fin n \<Rightarrow> n | NaN \<Rightarrow> 0 | PosInf \<Rightarrow> 0 | NegInf \<Rightarrow> 0)"

definition total_for :: "(string \<times> js_num) list \<Rightarrow> string \<Rightarrow> int" where
  \<comment> \<open>the sum of the counts listed under one name\<close>
  "total_for cs a = sum_list (map fin_count (filter (\<lambda>c. fst c = a) cs))"

definition small_counts :: "(string \<times> js_num) list \<Rightarrow> bool" where
  \<comment> \<open>counters whose names are no members of \<open>Object.prototype\<close> and whose counts are
      non-negative and add up to at most \<open>2^53\<close>\<close>
  "small_counts cs =
     (list_all (\<lambda>c. inherited (fst c) = None \<and> snd c = Fin (fin_count c) \<and> 0 \<le> fin_count c) cs \<and>
      sum_list (map fin_count cs) \<le> 2 ^ 53)"

fun small_val :: "int \<Rightarrow> jsval \<Rightarrow> bool" where
  "small_val b (Num (Fin t)) = (0 \<le> t \<and> t \<le> b)"
| "small_val b v = False"

definition values_upto :: "int \<Rightarrow> (string \<times> jsval) list \<Rightarrow> bool" where
  "values_upto b obj = list_all (\<lambda>c. small_val b (snd c)) obj"

definition tally :: "(string \<times> jsval) list \<Rightarrow> string \<Rightarrow> int" where
  \<comment> \<open>the number an object holds under a name, 0 when it holds none\<close>
  "tally obj a = (case map_of obj a of Some (Num (Fin n)) \<Rightarrow> n | _ \<Rightarrow> 0)"

definition log_req :: "json \<Rightarrow> request" where
  \<comment> \<open>\<open>POST /log\<close> with the given parsed body\<close>
  "log_req b = \<lparr>req_method = ''POST'', req_path = ''/log'', req_authorization = None,
                req_days = None, req_json = Some b\<rparr>"

definition stats_req :: "string \<Rightarrow> string option \<Rightarrow> request" where
  \<comment> \<open>\<open>GET /stats\<close> with the given Authorization header and \<open>days\<close> parameter\<close>
  "stats_req a d = \<lparr>req_method = ''GET'', req_path = ''/stats'', req_authorization = Some a,
                    req_days = d, req_json = None\<rparr>"


section \<open>Numbers: rounding, printing and parsing\<close>

lemma to_f64_small:
  assumes "\<bar>n\<bar> \<le> 2 ^ 53"
  shows "to_f64 n = Fin n"
proof -
  have m: "nat \<bar>n\<bar> \<le> 2 ^ 53"
    using assms by (simp add: nat_le_iff)
  then have r: "round53 (nat \<bar>n\<bar>) = nat \<bar>n\<bar>"
    by (simp add: round53_def)
  have "(2::nat) ^ 53 < 2 ^ 1024"
    by (rule power_strict_increasing) simp_all
  then have "\<not> 2 ^ 1024 \<le> nat \<bar>n\<bar>"
    using m by linarith
  then show ?thesis
    unfolding to_f64_def r Let_def by simp
qed

lemma bitlen_tie: "bitlen 9007199254740993 = 54"
  by (simp add: bitlen.simps)

lemma round53_tie: "round53 9007199254740993 = 9007199254740992"
  by (simp add: round53_def bitlen_tie Let_def)

lemma to_f64_tie: "to_f64 9007199254740993 = Fin 9007199254740992"
  by (simp add: to_f64_def round53_tie Let_def)

lemma num_add_one:
  assumes "- (2 ^ 53) \<le> c" and "c < 2 ^ 53"
  shows "num_add (Fin c) (Fin 1) = Fin (c + 1)"
  using assms by (simp add: to_f64_small)

lemma num_add_one_top: "num_add (Fin 9007199254740992) (Fin 1) = Fin 9007199254740992"
  by (simp add: to_f64_tie)

lemmas parse_defs = parseInt10_def is_ws_def is_digit_def digits_val_def digit_val_def

lemma stats_days_points:
  "stats_days None = 7 \<and> stats_days (Some ''abc'') = 7 \<and> stats_days (Some ''500'') = 30 \<and>
   stats_days (Some ''1'') = 1 \<and> stats_days (Some ''7'') = 7 \<and> stats_days (Some ''0'') = 7"
  by (simp add: stats_days_def parse_defs to_f64_small)

lemma stats_days_range: "1 \<le> stats_days q \<and> stats_days q \<le> 30"
  by (simp add: stats_days_def Let_def split: js_num.splits)

lemma below_ten:
  "(d::nat) < 10 \<Longrightarrow> d = 0 \<or> d = 1 \<or> d = 2 \<or> d = 3 \<or> d = 4 \<or> d = 5 \<or> d = 6 \<or> d = 7 \<or> d = 8 \<or> d = 9"
  by arith

lemma is_digit_digit_char: "d < 10 \<Longrightarrow> is_digit (digit_char d)"
  by (drule below_ten) (auto simp: is_digit_def digit_char_def)

lemma digit_val_digit_char: "d < 10 \<Longrightarrow> digit_val (digit_char d) = d"
  by (drule below_ten) (auto simp: digit_val_def digit_char_def)

lemma not_ws_digit: "is_digit c \<Longrightarrow> \<not> is_ws c"
  by (auto simp: is_digit_def is_ws_def)

lemma not_sign_digit: "is_digit c \<Longrightarrow> c \<noteq> CHR ''-'' \<and> c \<noteq> CHR ''+''"
  by (auto simp: is_digit_def)

lemma dec_digits: "list_all is_digit (dec n)"
proof (induction n rule: dec.induct)
  case (1 n)
  show ?case
  proof (cases "n < 10")
    case True
    then show ?thesis by (simp add: dec.simps [of n] is_digit_digit_char)
  next
    case False
    then show ?thesis
      using 1 by (simp add: dec.simps [of n] is_digit_digit_char)
  qed
qed

lemma dec_nonempty: "dec n \<noteq> []"
  by (subst dec.simps) simp

lemma digits_val_snoc: "digits_val (ds @ [c]) = 10 * digits_val ds + digit_val c"
  by (simp add: digits_val_def)

lemma digits_val_dec: "digits_val (dec n) = n"
proof (induction n rule: dec.induct)
  case (1 n)
  show ?case
  proof (cases "n < 10")
    case True
    then show ?thesis by (simp add: dec.simps [of n] digits_val_def digit_val_digit_char)
  next
    case False
    then have "digits_val (dec n) = 10 * (n div 10) + n mod 10"
      using 1 by (simp add: dec.simps [of n] digits_val_snoc digit_val_digit_char)
    then show ?thesis by simp
  qed
qed

lemma parseInt10_digits:
  assumes "ds \<noteq> []" and "list_all is_digit ds"
  shows "parseInt10 ds = to_f64 (int (digits_val ds))"
proof -
  obtain c cs where ds: "ds = c # cs" using assms(1) by (cases ds) auto
  have c: "is_digit c" using assms(2) ds by simp
  have tw: "takeWhile is_digit ds = ds"
    using assms(2) by (simp add: list_all_iff)
  have dw: "dropWhile is_ws ds = ds"
    using c ds not_ws_digit by simp
  have hd: "hd ds \<noteq> CHR ''-'' \<and> hd ds \<noteq> CHR ''+''"
    using not_sign_digit [OF c] ds by simp
  show ?thesis
    unfolding parseInt10_def dw Let_def using hd assms(1) by (simp add: tw)
qed

lemma js_String_small:
  assumes "\<bar>n\<bar> \<le> 2 ^ 53"
  shows "js_String (Fin n) = (if n < 0 then CHR ''-'' # dec (nat (- n)) else dec (nat n))"
proof -
  have "nat \<bar>n\<bar> \<le> 2 ^ 53"
    using assms by (simp add: nat_le_iff)
  then have "nat (- n) \<le> 2 ^ 53" and "nat n \<le> 2 ^ 53"
    by linarith+
  then show ?thesis
    by (simp add: js_String.simps(4) nat_String_def)
qed

lemma parseInt10_js_String:
  assumes "\<bar>n\<bar> \<le> 2 ^ 53"
  shows "parseInt10 (js_String (Fin n)) = Fin n"
proof (cases "n < 0")
  case False
  have "parseInt10 (dec (nat n)) = to_f64 (int (nat n))"
    by (simp add: parseInt10_digits dec_nonempty dec_digits digits_val_dec)
  then show ?thesis
    unfolding js_String_small [OF assms] using False assms by (simp add: to_f64_small)
next
  case True
  have tw: "takeWhile is_digit (dec (nat (- n))) = dec (nat (- n))"
    using dec_digits [of "nat (- n)"] by (simp add: list_all_iff)
  have "\<not> is_ws CHR ''-''" by (simp add: is_ws_def)
  then have "parseInt10 (CHR ''-'' # dec (nat (- n))) = to_f64 (- int (nat (- n)))"
    using dec_nonempty [of "nat (- n)"]
    by (simp add: parseInt10_def Let_def tw digits_val_dec)
  then show ?thesis
    unfolding js_String_small [OF assms] using True assms by (simp add: to_f64_small)
qed

lemma js_String_nonempty: "js_String (Fin n) \<noteq> []"
proof -
  have "nat_String m \<noteq> []" for m
    by (auto simp: nat_String_def dec_nonempty split: prod.splits)
  then show ?thesis by (simp add: js_String.simps(4))
qed

lemma count_of_js_String:
  assumes "\<bar>n\<bar> \<le> 2 ^ 53"
  shows "count_of (Some (js_String (Fin n))) = Fin n"
proof -
  have "falsy (Fin n) \<Longrightarrow> Fin n = Fin 0"
    by simp
  then show ?thesis
    using assms by (auto simp: count_of_def js_String_nonempty parseInt10_js_String)
qed

lemma parseInt10_zero: "parseInt10 ''0'' = Fin 0"
  by (simp add: parse_defs to_f64_small)

lemma count_of_None: "count_of None = Fin 0"
  by (simp add: count_of_def parseInt10_zero)

lemma count_of_NaN: "parseInt10 s = NaN \<Longrightarrow> count_of (Some s) = Fin 0"
  by (cases "s = []") (simp_all add: count_of_def parseInt10_zero)

section \<open>What a valid log request does to the store\<close>

lemma fetch_log_ok:
  assumes "req_path r = ''/log''" and "req_method r = ''POST''"
    and "req_json r = Some b" and "log_fields now b = Inr f" and "ad_id f \<noteq> []"
  shows "fetch now r e = (Inr \<lparr>status = 200, body = Text ''ok''\<rparr>, record_click f (CLICKS e))"
  using assms by (simp add: fetch_def handle_log_def)

lemma keys_differ: "counter_key f \<noteq> meta_key f"
  by (simp add: counter_key_def meta_key_def)

lemma entries_record_click:
  "map_of (entries (record_click f st)) =
     (map_of (entries st))
       (counter_key f \<mapsto> \<lparr>content = js_String (num_add (count_of (lookup st (counter_key f))) (Fin 1)), ttl = None\<rparr>,
        meta_key f \<mapsto> \<lparr>content = meta_json f, ttl = Some 2592000\<rparr>)"
  by (simp add: record_click_def kv_get_def kv_put_def Let_def update_conv' lookup_def)

lemma trace_record_click:
  "trace (record_click f st) =
     trace st @ [KvGet (counter_key f),
                 KvPut (counter_key f) (js_String (num_add (count_of (lookup st (counter_key f))) (Fin 1))) None,
                 KvPut (meta_key f) (meta_json f) (Some 2592000)]"
  by (simp add: record_click_def kv_get_def kv_put_def Let_def lookup_def)

lemma page_limit_record_click: "page_limit (record_click f st) = page_limit st"
  by (simp add: record_click_def kv_get_def kv_put_def Let_def)

lemma lookup_record_click:
  "lookup (record_click f st) k =
     (if k = meta_key f then Some (meta_json f)
      else if k = counter_key f then Some (js_String (num_add (count_of (lookup st (counter_key f))) (Fin 1)))
      else lookup st k)"
  using keys_differ [of f] by (simp add: lookup_def entries_record_click)

section \<open>Requests that leave the entries alone\<close>

lemma event_ofD:
  assumes "event_of now r = Some f"
  shows "req_path r = ''/log'' \<and> req_method r = ''POST'' \<and>
         (\<exists>b. req_json r = Some b \<and> log_fields now b = Inr f) \<and> ad_id f \<noteq> []"
  using assms by (auto simp: event_of_def split: if_splits option.splits sum.splits)

lemma fetch_event:
  assumes "event_of now r = Some f"
  shows "fetch now r e = (Inr \<lparr>status = 200, body = Text ''ok''\<rparr>, record_click f (CLICKS e))"
  using event_ofD [OF assms] fetch_log_ok by blast

lemma puts_scan_keys:
  "filter is_put (trace (snd (scan_keys st p ks acc))) = filter is_put (trace st)"
  by (induction ks arbitrary: st acc) (simp_all add: kv_get_def)

lemma scan_prefix_frame:
  "entries (snd (scan_prefix st p c acc)) = entries st \<and>
   page_limit (snd (scan_prefix st p c acc)) = page_limit st \<and>
   filter is_put (trace (snd (scan_prefix st p c acc))) = filter is_put (trace st)"
proof (induction st p c acc rule: scan_prefix.induct)
  case (1 st p cursor acc)
  obtain names cursor' st1 where l: "kv_list st p cursor = (names, cursor', st1)"
    by (cases "kv_list st p cursor") auto
  obtain acc' st2 where k: "scan_keys st1 p names acc = (acc', st2)"
    by (cases "scan_keys st1 p names acc") auto
  have s1: "entries st1 = entries st" "page_limit st1 = page_limit st"
    "filter is_put (trace st1) = filter is_put (trace st)"
    using l by (auto simp: kv_list_def Let_def)
  have s2: "entries st2 = entries st1" "page_limit st2 = page_limit st1"
    "filter is_put (trace st2) = filter is_put (trace st1)"
    using k entries_scan_keys [of st1 p names acc] page_limit_scan_keys [of st1 p names acc]
      puts_scan_keys [of st1 p names acc] by simp_all
  show ?case
  proof (cases cursor')
    case None
    then show ?thesis
      using l k s1 s2 by (simp add: scan_prefix.simps [of st p cursor acc])
  next
    case (Some c)
    have "scan_prefix st p cursor acc = scan_prefix st2 p (Some c) acc'"
      using l k Some by (simp add: scan_prefix.simps [of st p cursor acc])
    moreover have "entries (snd (scan_prefix st2 p (Some c) acc')) = entries st2 \<and>
      page_limit (snd (scan_prefix st2 p (Some c) acc')) = page_limit st2 \<and>
      filter is_put (trace (snd (scan_prefix st2 p (Some c) acc'))) = filter is_put (trace st2)"
      using "1.IH" [OF l [symmetric] refl k [symmetric] Some] .
    ultimately show ?thesis using s1 s2 by simp
  qed
qed

lemma scan_fold_frame:
  "entries (snd (fold (\<lambda>i (acc, s). scan_prefix s (pf i) None acc) is (acc0, st))) = entries st \<and>
   page_limit (snd (fold (\<lambda>i (acc, s). scan_prefix s (pf i) None acc) is (acc0, st))) = page_limit st \<and>
   filter is_put (trace (snd (fold (\<lambda>i (acc, s). scan_prefix s (pf i) None acc) is (acc0, st))))
     = filter is_put (trace st)"
proof (induction "is" arbitrary: acc0 st)
  case Nil
  show ?case by simp
next
  case (Cons i "is")
  obtain a s where sp: "scan_prefix st (pf i) None acc0 = (a, s)"
    by (cases "scan_prefix st (pf i) None acc0") auto
  show ?case
    using Cons [of a s] scan_prefix_frame [of st "pf i" None acc0] sp by simp
qed

lemma scan_days_frame:
  "entries (snd (scan_days now n st)) = entries st \<and>
   page_limit (snd (scan_days now n st)) = page_limit st \<and>
   filter is_put (trace (snd (scan_days now n st))) = filter is_put (trace st)"
  unfolding scan_days_def by (rule scan_fold_frame)

lemma handle_stats_frame:
  "entries (snd (handle_stats now r e)) = entries (CLICKS e) \<and>
   page_limit (snd (handle_stats now r e)) = page_limit (CLICKS e) \<and>
   filter is_put (trace (snd (handle_stats now r e))) = filter is_put (trace (CLICKS e))"
proof -
  obtain obj st where sd: "scan_days now (nat (stats_days (req_days r))) (CLICKS e) = (obj, st)"
    by (cases "scan_days now (nat (stats_days (req_days r))) (CLICKS e)") auto
  show ?thesis
    using scan_days_frame [of now "nat (stats_days (req_days r))" "CLICKS e"] sd
    by (simp add: handle_stats_def Let_def)
qed

lemma fetch_no_event:
  assumes "event_of now r = None"
  shows "entries (snd (fetch now r e)) = entries (CLICKS e) \<and>
         page_limit (snd (fetch now r e)) = page_limit (CLICKS e) \<and>
         filter is_put (trace (snd (fetch now r e))) = filter is_put (trace (CLICKS e))"
proof (cases "req_path r = ''/log'' \<and> req_method r = ''POST''")
  case True
  then have "snd (fetch now r e) = CLICKS e"
    using assms
    by (auto simp: fetch_def handle_log_def event_of_def split: option.splits sum.splits if_splits)
  then show ?thesis by simp
next
  case False
  then show ?thesis
    using handle_stats_frame [of now r e] by (auto simp: fetch_def)
qed

lemma serve_event:
  assumes "event_of (fst x) (snd x) = Some f"
  shows "CLICKS (serve e x) = record_click f (CLICKS e)"
  using fetch_event [OF assms, of e] by (simp add: serve_def)

lemma serve_all_Cons: "serve_all e (x # xs) = serve_all (serve e x) xs"
  by (simp add: serve_all_def)

lemma serve_all_append: "serve_all e (xs @ ys) = serve_all (serve_all e xs) ys"
  by (simp add: serve_all_def)

lemma serve_one:
  assumes "event_of (fst x) (snd x) = Some f"
  shows "lookup (CLICKS (serve e x)) (counter_key f)
           = Some (js_String (num_add (count_of (lookup (CLICKS e) (counter_key f))) (Fin 1)))"
  using keys_differ [of f] by (simp add: serve_event [OF assms] lookup_record_click)

lemma count_after_event:
  assumes "event_of (fst x) (snd x) = Some f"
    and "count_of (lookup (CLICKS e) (counter_key f)) = Fin c"
    and "- (2 ^ 53) \<le> c" and "c < 2 ^ 53"
  shows "count_of (lookup (CLICKS (serve e x)) (counter_key f)) = Fin (c + 1)"
proof -
  have "\<bar>c + 1\<bar> \<le> 2 ^ 53"
    using assms(3,4) by simp
  then show ?thesis
    unfolding serve_one [OF assms(1)] assms(2) num_add_one [OF assms(3,4)]
    by (rule count_of_js_String)
qed

lemma count_after_events:
  assumes "\<forall>x \<in> set xs. \<exists>f. event_of (fst x) (snd x) = Some f \<and> counter_key f = k"
    and "count_of (lookup (CLICKS e) k) = Fin c"
    and "- (2 ^ 53) \<le> c" and "c + int (length xs) \<le> 2 ^ 53"
  shows "count_of (lookup (CLICKS (serve_all e xs)) k) = Fin (c + int (length xs))"
  using assms
proof (induction xs arbitrary: e c)
  case Nil
  then show ?case by (simp add: serve_all_def)
next
  case (Cons x xs)
  obtain f where f: "event_of (fst x) (snd x) = Some f" "counter_key f = k"
    using Cons.prems(1) by auto
  have c: "c < 2 ^ 53"
    using Cons.prems(4) by simp
  have one: "count_of (lookup (CLICKS (serve e x)) k) = Fin (c + 1)"
    using count_after_event [OF f(1) _ Cons.prems(3) c, of e] Cons.prems(2) f(2) by simp
  have rest: "\<forall>x \<in> set xs. \<exists>f. event_of (fst x) (snd x) = Some f \<and> counter_key f = k"
    using Cons.prems(1) by simp
  have "count_of (lookup (CLICKS (serve_all (serve e x) xs)) k) = Fin (c + 1 + int (length xs))"
    using Cons.prems(3,4) by (intro Cons.IH [OF rest one]) simp_all
  then show ?case by (simp add: serve_all_Cons add.assoc add.commute)
qed


section \<open>The \<open>days\<close> window (C1)\<close>

text \<open>
  C1. The claim: \<open>days\<close> defaults to 7 when absent, falls back to 7 when it is not a
  number, and is clamped to 1..30, so that \<open>days=0\<close> behaves as \<open>days=1\<close>. The worker
  does not do the last: \<open>parseInt("0", 10)\<close> is \<open>0\<close>, which is falsy, so \<open>|| 7\<close> replaces
  it before the clamp. The theorem evaluates the worker there: \<open>days=0\<close> gives a window of
  7 days where \<open>days=1\<close> gives 1; every request with \<open>days=0\<close> is answered as the same
  request with \<open>days=7\<close>; and on an empty store the answers to \<open>days=0\<close> and \<open>days=1\<close>
  differ.
\<close>

theorem days_zero_served_as_seven:
  "stats_days (Some ''0'') = 7 \<and> stats_days (Some ''1'') = 1 \<and>
   fetch now (r\<lparr>req_days := Some ''0''\<rparr>) e = fetch now (r\<lparr>req_days := Some ''7''\<rparr>) e \<and>
   fetch 0 \<lparr>req_method = ''GET'', req_path = ''/stats'', req_authorization = Some ''Bearer s'',
            req_days = Some ''0'', req_json = None\<rparr>
     \<lparr>STATS_TOKEN = Some ''s'', CLICKS = \<lparr>entries = [], page_limit = 1000, trace = []\<rparr>\<rparr>
   \<noteq>
   fetch 0 \<lparr>req_method = ''GET'', req_path = ''/stats'', req_authorization = Some ''Bearer s'',
            req_days = Some ''1'', req_json = None\<rparr>
     \<lparr>STATS_TOKEN = Some ''s'', CLICKS = \<lparr>entries = [], page_limit = 1000, trace = []\<rparr>\<rparr>"
proof -
  have p: "stats_days (Some ''0'') = 7" "stats_days (Some ''1'') = 1" "stats_days (Some ''7'') = 7"
    using stats_days_points by simp_all
  have eq: "fetch now (r\<lparr>req_days := Some ''0''\<rparr>) e = fetch now (r\<lparr>req_days := Some ''7''\<rparr>) e"
    by (simp add: fetch_def handle_stats_def isAuthed_def p split: option.splits)
  have ne: "fst (fetch 0 \<lparr>req_method = ''GET'', req_path = ''/stats'', req_authorization = Some ''Bearer s'',
            req_days = Some ''0'', req_json = None\<rparr>
     \<lparr>STATS_TOKEN = Some ''s'', CLICKS = \<lparr>entries = [], page_limit = 1000, trace = []\<rparr>\<rparr>)
   \<noteq>
   fst (fetch 0 \<lparr>req_method = ''GET'', req_path = ''/stats'', req_authorization = Some ''Bearer s'',
            req_days = Some ''1'', req_json = None\<rparr>
     \<lparr>STATS_TOKEN = Some ''s'', CLICKS = \<lparr>entries = [], page_limit = 1000, trace = []\<rparr>\<rparr>)"
    by (simp add: fetch_def handle_stats_def isAuthed_def p split: prod.splits)
  show ?thesis using p eq ne by auto
qed

section \<open>Authorization of \<open>/stats\<close> (C4)\<close>

text \<open>
  C4. A \<open>GET /stats\<close> request is answered 401 "unauthorized" whenever the secret is unset
  or the Authorization header is not exactly \<open>Bearer <secret>\<close>, whatever the query
  parameters; the store comes back as it was, its trace included: no store operation
  was performed.
\<close>

theorem stats_unauthorized:
  assumes "req_path r = ''/stats''" and "req_method r = ''GET''"
    and "STATS_TOKEN e = None \<or>
         (\<exists>tok. STATS_TOKEN e = Some tok \<and> req_authorization r \<noteq> Some (''Bearer '' @ tok))"
  shows "fetch now r e = (Inr \<lparr>status = 401, body = Text ''unauthorized''\<rparr>, CLICKS e)"
proof -
  have "\<not> isAuthed r e"
    using assms(3) by (auto simp: isAuthed_def split: option.splits if_splits)
  then show ?thesis
    using assms(1,2) by (simp add: fetch_def handle_stats_def)
qed

theorem stats_unauthorized_witness:
  "fetch 0 \<lparr>req_method = ''GET'', req_path = ''/stats'', req_authorization = Some ''Bearer x'',
            req_days = Some ''3'', req_json = None\<rparr>
     \<lparr>STATS_TOKEN = Some ''s3cret'',
      CLICKS = \<lparr>entries = [(''click:1970-01-01:a'', \<lparr>content = ''1'', ttl = None\<rparr>)],
                page_limit = 1000, trace = []\<rparr>\<rparr>
   = (Inr \<lparr>status = 401, body = Text ''unauthorized''\<rparr>,
      \<lparr>entries = [(''click:1970-01-01:a'', \<lparr>content = ''1'', ttl = None\<rparr>)],
       page_limit = 1000, trace = []\<rparr>)"
  using stats_unauthorized [of
      "\<lparr>req_method = ''GET'', req_path = ''/stats'', req_authorization = Some ''Bearer x'',
        req_days = Some ''3'', req_json = None\<rparr>"
      "\<lparr>STATS_TOKEN = Some ''s3cret'',
        CLICKS = \<lparr>entries = [(''click:1970-01-01:a'', \<lparr>content = ''1'', ttl = None\<rparr>)],
                  page_limit = 1000, trace = []\<rparr>\<rparr>" 0]
  by simp


section \<open>Counting clicks (C3)\<close>

text \<open>
  C3. The claim: a valid log request reads the counter at \<open>click:<day>:<ad_id>\<close>, a missing
  or non-numeric value counting as 0, and writes it back incremented by one, as decimal
  text; so \<open>N\<close> valid log requests for the same day and \<open>ad_id\<close>, handled one after the
  other, raise the counter by exactly \<open>N\<close>. The counter is a double: at
  9007199254740992 (\<open>2^53\<close>) \<open>cur + 1\<close> rounds back to \<open>cur\<close>, and the request writes the
  value it read.
\<close>

theorem log_increment_lost:
  "event_of 0 (log_req (JObj [(''ts'', JStr ''2024-01-02T10:00:00.000Z''), (''ad_id'', JStr ''a1'')]))
     = Some \<lparr>ts = ''2024-01-02T10:00:00.000Z'', ad_id = ''a1'', genre = [], page_id = [],
              page_url = []\<rparr> \<and>
   lookup \<lparr>entries = [(''click:2024-01-02:a1'', \<lparr>content = ''9007199254740992'', ttl = None\<rparr>)],
           page_limit = 1000, trace = []\<rparr> ''click:2024-01-02:a1''
     = Some ''9007199254740992'' \<and>
   lookup (snd (fetch 0
       (log_req (JObj [(''ts'', JStr ''2024-01-02T10:00:00.000Z''), (''ad_id'', JStr ''a1'')]))
       \<lparr>STATS_TOKEN = None,
        CLICKS = \<lparr>entries = [(''click:2024-01-02:a1'', \<lparr>content = ''9007199254740992'', ttl = None\<rparr>)],
                  page_limit = 1000, trace = []\<rparr>\<rparr>)) ''click:2024-01-02:a1''
     = Some ''9007199254740992''"
proof -
  let ?b = "JObj [(''ts'', JStr ''2024-01-02T10:00:00.000Z''), (''ad_id'', JStr ''a1'')]"
  let ?f = "\<lparr>ts = ''2024-01-02T10:00:00.000Z'', ad_id = ''a1'', genre = [], page_id = [],
             page_url = []\<rparr>"
  let ?st = "\<lparr>entries = [(''click:2024-01-02:a1'', \<lparr>content = ''9007199254740992'', ttl = None\<rparr>)],
              page_limit = 1000, trace = []\<rparr>"
  have lf: "log_fields 0 ?b = Inr ?f"
    by (simp add: log_fields_def field_string_def or_else_def)
  have ev: "event_of 0 (log_req ?b) = Some ?f"
    by (simp add: event_of_def log_req_def lf)
  have ck: "counter_key ?f = ''click:2024-01-02:a1''"
    by (simp add: counter_key_def)
  have lk: "lookup ?st ''click:2024-01-02:a1'' = Some ''9007199254740992''"
    by (simp add: lookup_def)
  have cur: "count_of (Some ''9007199254740992'') = Fin 9007199254740992"
    by (simp add: count_of_def parse_defs to_f64_small)
  have tx: "js_String (Fin 9007199254740992) = ''9007199254740992''"
    by (simp add: js_String_small dec.simps digit_char_def)
  have "lookup (record_click ?f ?st) (counter_key ?f)
          = Some (js_String (num_add (count_of (lookup ?st (counter_key ?f))) (Fin 1)))"
    using keys_differ [of ?f] by (simp add: lookup_record_click)
  then have "lookup (record_click ?f ?st) ''click:2024-01-02:a1'' = Some ''9007199254740992''"
    unfolding ck lk cur num_add_one_top tx .
  then show ?thesis
    using ev lk fetch_event [OF ev, of "\<lparr>STATS_TOKEN = None, CLICKS = ?st\<rparr>"] by simp
qed

text \<open>
  C3, as amended. A valid log request reads the counter at \<open>click:<day>:<ad_id>\<close>, a
  missing or non-numeric value counting as 0, and writes back the text of the counter
  plus one; \<open>N\<close> valid log requests for the same day and \<open>ad_id\<close>, handled one after the
  other, raise a counter \<open>c\<close> by exactly \<open>N\<close> as long as \<open>c + N\<close> is at most \<open>2^53\<close> (and
  \<open>c\<close> at least \<open>-2^53\<close>), each of them writing the decimal digits of the counter it
  leaves.
\<close>

theorem log_increments_counter:
  assumes "\<forall>x \<in> set xs. \<exists>f. event_of (fst x) (snd x) = Some f \<and> take 10 (ts f) = day \<and> ad_id f = a"
    and "count_of (lookup (CLICKS e) (''click:'' @ day @ '':'' @ a)) = Fin c"
    and "- (2 ^ 53) \<le> c" and "c + int (length xs) \<le> 2 ^ 53"
  shows "count_of (lookup (CLICKS (serve_all e xs)) (''click:'' @ day @ '':'' @ a))
           = Fin (c + int (length xs)) \<and>
         (\<forall>x \<in> set xs. lookup (CLICKS (serve e x)) (''click:'' @ day @ '':'' @ a)
           = Some (if c + 1 < 0 then CHR ''-'' # dec (nat (- (c + 1))) else dec (nat (c + 1)))) \<and>
         count_of None = Fin 0 \<and> (\<forall>s. parseInt10 s = NaN \<longrightarrow> count_of (Some s) = Fin 0)"
proof -
  let ?k = "''click:'' @ day @ '':'' @ a"
  have ev: "\<forall>x \<in> set xs. \<exists>f. event_of (fst x) (snd x) = Some f \<and> counter_key f = ?k"
  proof
    fix x assume "x \<in> set xs"
    then obtain f where f: "event_of (fst x) (snd x) = Some f" "take 10 (ts f) = day" "ad_id f = a"
      using assms(1) by blast
    have "counter_key f = ?k"
      unfolding counter_key_def f(2) f(3) by (rule refl)
    then show "\<exists>f. event_of (fst x) (snd x) = Some f \<and> counter_key f = ?k"
      using f(1) by blast
  qed
  have one: "\<forall>x \<in> set xs. lookup (CLICKS (serve e x)) ?k
               = Some (if c + 1 < 0 then CHR ''-'' # dec (nat (- (c + 1))) else dec (nat (c + 1)))"
  proof
    fix x assume x: "x \<in> set xs"
    then obtain f where f: "event_of (fst x) (snd x) = Some f" "counter_key f = ?k"
      using ev by blast
    have "0 < length xs"
      using x by (cases xs) auto
    then have lt: "c < 2 ^ 53"
      using assms(4) by linarith
    then have b: "\<bar>c + 1\<bar> \<le> 2 ^ 53"
      using assms(3) by simp
    have "lookup (CLICKS (serve e x)) ?k = Some (js_String (Fin (c + 1)))"
      using serve_one [OF f(1), of e] unfolding f(2) assms(2) num_add_one [OF assms(3) lt] .
    then show "lookup (CLICKS (serve e x)) ?k
               = Some (if c + 1 < 0 then CHR ''-'' # dec (nat (- (c + 1))) else dec (nat (c + 1)))"
      unfolding js_String_small [OF b] .
  qed
  have n: "count_of (lookup (CLICKS (serve_all e xs)) ?k) = Fin (c + int (length xs))"
    using ev assms(2,3,4) by (rule count_after_events)
  have z: "\<forall>s. parseInt10 s = NaN \<longrightarrow> count_of (Some s) = Fin 0"
    using count_of_NaN by blast
  from n one count_of_None z show ?thesis
    by (intro conjI)
qed

theorem log_increments_counter_witness:
  "count_of (lookup (CLICKS (serve_all
      \<lparr>STATS_TOKEN = None,
       CLICKS = \<lparr>entries = [(''click:2024-01-02:a1'', \<lparr>content = ''41'', ttl = None\<rparr>)],
                 page_limit = 1000, trace = []\<rparr>\<rparr>
      [(0, log_req (JObj [(''ts'', JStr ''2024-01-02T10:00:00.000Z''), (''ad_id'', JStr ''a1'')])),
       (5, log_req (JObj [(''ad_id'', JStr ''a1''), (''ts'', JStr ''2024-01-02T23:59:59.999Z''),
                          (''genre'', JStr ''news'')]))]))
     ''click:2024-01-02:a1'') = Fin 43 \<and>
   lookup (CLICKS (serve
      \<lparr>STATS_TOKEN = None,
       CLICKS = \<lparr>entries = [(''click:2024-01-02:a1'', \<lparr>content = ''41'', ttl = None\<rparr>)],
                 page_limit = 1000, trace = []\<rparr>\<rparr>
      (0, log_req (JObj [(''ts'', JStr ''2024-01-02T10:00:00.000Z''), (''ad_id'', JStr ''a1'')]))))
     ''click:2024-01-02:a1'' = Some ''42''"
proof -
  let ?b1 = "JObj [(''ts'', JStr ''2024-01-02T10:00:00.000Z''), (''ad_id'', JStr ''a1'')]"
  let ?b2 = "JObj [(''ad_id'', JStr ''a1''), (''ts'', JStr ''2024-01-02T23:59:59.999Z''),
                   (''genre'', JStr ''news'')]"
  let ?e = "\<lparr>STATS_TOKEN = None,
       CLICKS = \<lparr>entries = [(''click:2024-01-02:a1'', \<lparr>content = ''41'', ttl = None\<rparr>)],
                 page_limit = 1000, trace = []\<rparr>\<rparr>"
  have f1: "log_fields 0 ?b1 = Inr \<lparr>ts = ''2024-01-02T10:00:00.000Z'', ad_id = ''a1'', genre = [],
              page_id = [], page_url = []\<rparr>"
    by (simp add: log_fields_def field_string_def or_else_def)
  have f2: "log_fields 5 ?b2 = Inr \<lparr>ts = ''2024-01-02T23:59:59.999Z'', ad_id = ''a1'',
              genre = ''news'', page_id = [], page_url = []\<rparr>"
    by (simp add: log_fields_def field_string_def or_else_def)
  have h: "\<forall>x \<in> set [(0::int, log_req ?b1), (5, log_req ?b2)].
             \<exists>f. event_of (fst x) (snd x) = Some f \<and> take 10 (ts f) = ''2024-01-02'' \<and> ad_id f = ''a1''"
    by (simp add: event_of_def log_req_def f1 f2)
  have c: "count_of (lookup (CLICKS ?e) (''click:'' @ ''2024-01-02'' @ '':'' @ ''a1'')) = Fin 41"
    by (simp add: lookup_def count_of_def parse_defs to_f64_small)
  have lo: "- (2 ^ 53) \<le> (41::int)" and hi: "41 + int (length [(0::int, log_req ?b1), (5, log_req ?b2)]) \<le> 2 ^ 53"
    by simp_all
  have d: "dec 42 = ''42''"
    by (simp add: dec.simps digit_char_def)
  show ?thesis
    using log_increments_counter [OF h c lo hi] d by simp
qed

lemma starts_with_click_meta: "\<not> starts_with ''click:'' (''meta:'' @ a)"
  by (simp add: starts_with_def)

lemma starts_with_click_counter: "starts_with ''click:'' (counter_key f)"
  by (simp add: starts_with_def counter_key_def)


lemma meta_key_inj: "meta_key f = meta_key g \<longleftrightarrow> ad_id f = ad_id g"
  by (simp add: meta_key_def)

lemma puts_record_click:
  "filter is_put (trace (record_click f st)) =
     filter is_put (trace st) @
       [KvPut (counter_key f) (js_String (num_add (count_of (lookup st (counter_key f))) (Fin 1))) None,
        KvPut (meta_key f) (meta_json f) (Some 2592000)]"
  by (simp add: trace_record_click)

lemma others_record_click:
  assumes "k \<noteq> counter_key f" and "k \<noteq> meta_key f"
  shows "map_of (entries (record_click f st)) k = map_of (entries st) k"
  using assms by (simp add: entries_record_click)

section \<open>Frame of the two routes (C9)\<close>

text \<open>
  C9. A successful \<open>POST /log\<close> writes exactly two keys, \<open>click:<day>:<ad_id>\<close> and
  \<open>meta:<ad_id>\<close> (two different keys, one \<open>put\<close> each), and every other key keeps its
  entry. A \<open>GET /stats\<close>, authorized or not, leaves the entries as they were and performs
  no \<open>put\<close>.
\<close>

theorem log_and_stats_frame:
  "(event_of now r = Some f \<longrightarrow>
      (\<forall>k. k \<noteq> counter_key f \<and> k \<noteq> meta_key f \<longrightarrow>
           map_of (entries (snd (fetch now r e))) k = map_of (entries (CLICKS e)) k) \<and>
      filter is_put (trace (snd (fetch now r e))) =
        filter is_put (trace (CLICKS e)) @
          [KvPut (counter_key f) (js_String (num_add (count_of (lookup (CLICKS e) (counter_key f))) (Fin 1))) None,
           KvPut (meta_key f) (meta_json f) (Some (60 * 60 * 24 * 30))] \<and>
      counter_key f = ''click:'' @ take 10 (ts f) @ '':'' @ ad_id f \<and>
      meta_key f = ''meta:'' @ ad_id f \<and>
      counter_key f \<noteq> meta_key f) \<and>
   (req_path r = ''/stats'' \<and> req_method r = ''GET'' \<longrightarrow>
      entries (snd (fetch now r e)) = entries (CLICKS e) \<and>
      filter is_put (trace (snd (fetch now r e))) = filter is_put (trace (CLICKS e)))"
proof (intro conjI impI)
  assume ev: "event_of now r = Some f"
  have s: "snd (fetch now r e) = record_click f (CLICKS e)"
    using fetch_event [OF ev, of e] by simp
  show "\<forall>k. k \<noteq> counter_key f \<and> k \<noteq> meta_key f \<longrightarrow>
           map_of (entries (snd (fetch now r e))) k = map_of (entries (CLICKS e)) k"
    unfolding s using others_record_click by blast
  show "filter is_put (trace (snd (fetch now r e))) =
        filter is_put (trace (CLICKS e)) @
          [KvPut (counter_key f) (js_String (num_add (count_of (lookup (CLICKS e) (counter_key f))) (Fin 1))) None,
           KvPut (meta_key f) (meta_json f) (Some (60 * 60 * 24 * 30))]"
    unfolding s by (simp add: puts_record_click)
  show "counter_key f = ''click:'' @ take 10 (ts f) @ '':'' @ ad_id f"
    by (rule counter_key_def)
  show "meta_key f = ''meta:'' @ ad_id f"
    by (rule meta_key_def)
  show "counter_key f \<noteq> meta_key f"
    by (rule keys_differ)
next
  assume st: "req_path r = ''/stats'' \<and> req_method r = ''GET''"
  then have "event_of now r = None"
    by (simp add: event_of_def)
  then show "entries (snd (fetch now r e)) = entries (CLICKS e)"
    and "filter is_put (trace (snd (fetch now r e))) = filter is_put (trace (CLICKS e))"
    using fetch_no_event [of now r e] by simp_all
qed

theorem log_and_stats_frame_witness:
  "event_of 0 (log_req (JObj [(''ts'', JStr ''2024-01-02T10:00:00.000Z''), (''ad_id'', JStr ''a1''),
                              (''genre'', JStr ''news'')]))
     = Some \<lparr>ts = ''2024-01-02T10:00:00.000Z'', ad_id = ''a1'', genre = ''news'', page_id = [],
              page_url = []\<rparr> \<and>
   map_of (entries (snd (fetch 0
       (log_req (JObj [(''ts'', JStr ''2024-01-02T10:00:00.000Z''), (''ad_id'', JStr ''a1''),
                       (''genre'', JStr ''news'')]))
       \<lparr>STATS_TOKEN = Some ''s'',
        CLICKS = \<lparr>entries = [(''click:2024-01-02:b2'', \<lparr>content = ''5'', ttl = None\<rparr>)],
                  page_limit = 1000, trace = []\<rparr>\<rparr>))) ''click:2024-01-02:b2''
     = Some \<lparr>content = ''5'', ttl = None\<rparr> \<and>
   filter is_put (trace (snd (fetch 0
       (log_req (JObj [(''ts'', JStr ''2024-01-02T10:00:00.000Z''), (''ad_id'', JStr ''a1''),
                       (''genre'', JStr ''news'')]))
       \<lparr>STATS_TOKEN = Some ''s'',
        CLICKS = \<lparr>entries = [(''click:2024-01-02:b2'', \<lparr>content = ''5'', ttl = None\<rparr>)],
                  page_limit = 1000, trace = []\<rparr>\<rparr>)))
     = [KvPut ''click:2024-01-02:a1'' ''1'' None,
        KvPut ''meta:a1''
          (meta_json \<lparr>ts = ''2024-01-02T10:00:00.000Z'', ad_id = ''a1'', genre = ''news'',
                      page_id = [], page_url = []\<rparr>)
          (Some 2592000)] \<and>
   entries (snd (fetch 1704153600000 (stats_req ''Bearer s'' (Some ''2''))
       \<lparr>STATS_TOKEN = Some ''s'',
        CLICKS = \<lparr>entries = [(''click:2024-01-02:b2'', \<lparr>content = ''5'', ttl = None\<rparr>)],
                  page_limit = 1000, trace = []\<rparr>\<rparr>))
     = [(''click:2024-01-02:b2'', \<lparr>content = ''5'', ttl = None\<rparr>)]"
proof -
  let ?b = "JObj [(''ts'', JStr ''2024-01-02T10:00:00.000Z''), (''ad_id'', JStr ''a1''),
                  (''genre'', JStr ''news'')]"
  let ?f = "\<lparr>ts = ''2024-01-02T10:00:00.000Z'', ad_id = ''a1'', genre = ''news'', page_id = [],
             page_url = []\<rparr>"
  let ?e = "\<lparr>STATS_TOKEN = Some ''s'',
        CLICKS = \<lparr>entries = [(''click:2024-01-02:b2'', \<lparr>content = ''5'', ttl = None\<rparr>)],
                  page_limit = 1000, trace = []\<rparr>\<rparr>"
  have lf: "log_fields 0 ?b = Inr ?f"
    by (simp add: log_fields_def field_string_def or_else_def)
  have ev: "event_of 0 (log_req ?b) = Some ?f"
    by (simp add: event_of_def log_req_def lf)
  have ck: "counter_key ?f = ''click:2024-01-02:a1''" and mk: "meta_key ?f = ''meta:a1''"
    by (simp_all add: counter_key_def meta_key_def)
  have one: "js_String (num_add (count_of None) (Fin 1)) = ''1''"
    by (simp add: count_of_None to_f64_small js_String_small dec.simps digit_char_def)
  have st: "req_path (stats_req ''Bearer s'' (Some ''2'')) = ''/stats'' \<and>
            req_method (stats_req ''Bearer s'' (Some ''2'')) = ''GET''"
    by (simp add: stats_req_def)
  have a: "map_of (entries (snd (fetch 0 (log_req ?b) ?e))) ''click:2024-01-02:b2''
             = map_of (entries (CLICKS ?e)) ''click:2024-01-02:b2''"
    using log_and_stats_frame [of 0 "log_req ?b" ?f ?e] ev ck mk by simp
  have b: "filter is_put (trace (snd (fetch 0 (log_req ?b) ?e))) =
        filter is_put (trace (CLICKS ?e)) @
          [KvPut (counter_key ?f) (js_String (num_add (count_of (lookup (CLICKS ?e) (counter_key ?f))) (Fin 1))) None,
           KvPut (meta_key ?f) (meta_json ?f) (Some (60 * 60 * 24 * 30))]"
    using log_and_stats_frame [of 0 "log_req ?b" ?f ?e] ev by blast
  have c: "entries (snd (fetch 1704153600000 (stats_req ''Bearer s'' (Some ''2'')) ?e)) = entries (CLICKS ?e)"
    using log_and_stats_frame [of 1704153600000 "stats_req ''Bearer s'' (Some ''2'')" ?f ?e] st by blast
  have lk: "js_String (num_add (count_of (lookup
             \<lparr>entries = [(''click:2024-01-02:b2'', \<lparr>content = ''5'', ttl = None\<rparr>)],
              page_limit = 1000, trace = []\<rparr> ''click:2024-01-02:a1'')) (Fin 1)) = ''1''"
    using one by (simp add: lookup_def)
  show ?thesis
    using ev a b c by (simp add: ck mk lk)
qed





lemma json_escape_plain: "plain_char c \<Longrightarrow> json_escape c = [c]"
  by (simp add: json_escape_def plain_char_def Let_def)

lemma json_quote_plain:
  assumes "list_all plain_char s"
  shows "json_quote s = [CHR 0x22] @ s @ [CHR 0x22]"
proof -
  have "concat (map json_escape s) = s"
    using assms by (induction s) (simp_all add: json_escape_plain)
  then show ?thesis
    by (simp add: json_quote_def)
qed

lemma meta_json_text:
  "meta_json f = ''{\"genre\":'' @ json_quote (genre f) @ '',\"page_id\":'' @ json_quote (page_id f) @
                 '',\"page_url\":'' @ json_quote (page_url f) @ ''}''"
  by (simp add: meta_json_def json_quote_def json_escape_def)

lemma meta_json_plain:
  assumes "list_all plain_char (genre f @ page_id f @ page_url f)"
  shows "meta_json f = ''{\"genre\":\"'' @ genre f @ ''\",\"page_id\":\"'' @ page_id f @
                       ''\",\"page_url\":\"'' @ page_url f @ ''\"}''"
proof -
  have "list_all plain_char (genre f)" "list_all plain_char (page_id f)" "list_all plain_char (page_url f)"
    using assms by simp_all
  then show ?thesis
    unfolding meta_json_text by (simp add: json_quote_plain)
qed

section \<open>The metadata record (C7)\<close>



lemma bitlen_le: "0 < n \<Longrightarrow> 2 ^ (bitlen n - 1) \<le> n"
proof (induction n rule: bitlen.induct)
  case (1 n)
  show ?case
  proof (cases "n div 2 = 0")
    case True
    then have "n = 1" using "1.prems" by linarith
    then show ?thesis by (simp add: bitlen.simps)
  next
    case False
    then have ih: "2 ^ (bitlen (n div 2) - 1) \<le> n div 2"
      using "1.IH" "1.prems" by simp
    have pos: "0 < bitlen (n div 2)"
      using False by (simp add: bitlen.simps [of "n div 2"])
    have "bitlen n = Suc (bitlen (n div 2))"
      using "1.prems" by (simp add: bitlen.simps [of n])
    then have "(2::nat) ^ (bitlen n - 1) = 2 * 2 ^ (bitlen (n div 2) - 1)"
      using pos by (cases "bitlen (n div 2)") simp_all
    also have "\<dots> \<le> 2 * (n div 2)"
      using ih by simp
    also have "\<dots> \<le> n"
      by simp
    finally show ?thesis .
  qed
qed

lemma round53_pos: "0 < n \<Longrightarrow> 0 < round53 n"
proof (cases "n \<le> 2 ^ 53")
  case True
  assume "0 < n"
  then show ?thesis using True by (simp add: round53_def)
next
  case False
  assume n: "0 < n"
  let ?e = "bitlen n - 53"
  have "(2::nat) ^ ?e \<le> 2 ^ (bitlen n - 1)"
    by (rule power_increasing) simp_all
  then have "2 ^ ?e \<le> n"
    using bitlen_le [OF n] by linarith
  then have "0 < n div 2 ^ ?e"
    by (simp add: div_greater_zero_iff)
  then show ?thesis
    using False by (simp add: round53_def Let_def)
qed

lemma falsy_to_f64: "falsy (to_f64 n) \<longleftrightarrow> n = 0"
proof (cases "n = 0")
  case True
  then show ?thesis by (simp add: to_f64_small)
next
  case False
  then have "0 < round53 (nat \<bar>n\<bar>)"
    by (intro round53_pos) simp
  then show ?thesis
    using False by (auto simp: to_f64_def Let_def)
qed

lemma log_fields_ts:
  assumes "log_fields now b = Inr f"
  shows "field_string b ''ts'' (JStr (toISOString now)) = Inr (ts f)"
  using assms by (auto simp: log_fields_def split: sum.splits)

lemma field_string_cases:
  assumes "field_string b name (JStr d) = Inr s"
  shows "case body_field b name of
           Inl err \<Rightarrow> False
         | Inr None \<Rightarrow> s = d
         | Inr (Some JNull) \<Rightarrow> s = d
         | Inr (Some (JBool c)) \<Rightarrow> s = (if c then ''true'' else d)
         | Inr (Some (JNum n)) \<Rightarrow> s = (if n = 0 then d else js_String (to_f64 n))
         | Inr (Some (JStr t)) \<Rightarrow> s = (if t = [] then d else t)
         | Inr (Some (JArr xs)) \<Rightarrow> join_elems xs = Inr s
         | Inr (Some (JObj kvs)) \<Rightarrow> s = ''[object Object]''"
  using assms
  by (auto simp: field_string_def or_else_def falsy_to_f64 split: sum.splits option.splits json.splits if_splits)

lemma log_fields_strings:
  assumes "t \<noteq> []" and "a \<noteq> []" and "length a \<le> 120"
  shows "log_fields now (JObj [(''ts'', JStr t), (''ad_id'', JStr a)])
           = Inr \<lparr>ts = t, ad_id = a, genre = [], page_id = [], page_url = []\<rparr>"
  using assms by (simp add: log_fields_def field_string_def or_else_def)

lemma iso_example: "toISOString 1704189296123 = ''2024-01-02T09:54:56.123Z''"
  by code_simp

section \<open>The timestamp and the day bucket (C6)\<close>

text \<open>
  C6. For a log request whose body parses, the timestamp is the \<open>ts\<close> field coerced to a
  string, or the current instant in ISO form when the field is absent or falsy: a string
  is taken as it is, \<open>true\<close> gives \<open>true\<close>, a number its digits, an array its elements
  joined by commas, an object \<open>[object Object]\<close>; the instant 1704189296123 prints as
  \<open>2024-01-02T09:54:56.123Z\<close>. The day is the first 10 characters of that string,
  whatever they are, and the counter written is the one at \<open>click:<day>:<ad_id>\<close>.
  Nothing checks that the timestamp is a date: any non-empty string \<open>t\<close> sent as \<open>ts\<close> is
  taken as it is.
\<close>

theorem log_day_bucket:
  assumes "req_json r = Some b" and "event_of now r = Some f"
  shows "(case body_field b ''ts'' of
            Inl err \<Rightarrow> False
          | Inr None \<Rightarrow> ts f = toISOString now
          | Inr (Some JNull) \<Rightarrow> ts f = toISOString now
          | Inr (Some (JBool c)) \<Rightarrow> ts f = (if c then ''true'' else toISOString now)
          | Inr (Some (JNum n)) \<Rightarrow> ts f = (if n = 0 then toISOString now else js_String (to_f64 n))
          | Inr (Some (JStr t)) \<Rightarrow> ts f = (if t = [] then toISOString now else t)
          | Inr (Some (JArr xs)) \<Rightarrow> join_elems xs = Inr (ts f)
          | Inr (Some (JObj kvs)) \<Rightarrow> ts f = ''[object Object]'') \<and>
         filter is_put (trace (snd (fetch now r e))) =
           filter is_put (trace (CLICKS e)) @
             [KvPut (''click:'' @ take 10 (ts f) @ '':'' @ ad_id f)
                (js_String (num_add (count_of (lookup (CLICKS e) (''click:'' @ take 10 (ts f) @ '':'' @ ad_id f)))
                              (Fin 1)))
                None,
              KvPut (meta_key f) (meta_json f) (Some 2592000)] \<and>
         (\<forall>t a. t \<noteq> [] \<and> a \<noteq> [] \<and> length a \<le> 120 \<longrightarrow>
            event_of now (log_req (JObj [(''ts'', JStr t), (''ad_id'', JStr a)]))
              = Some \<lparr>ts = t, ad_id = a, genre = [], page_id = [], page_url = []\<rparr>) \<and>
         toISOString 1704189296123 = ''2024-01-02T09:54:56.123Z''"
proof (intro conjI allI impI)
  have lf: "log_fields now b = Inr f"
    using event_ofD [OF assms(2)] assms(1) by auto
  show "case body_field b ''ts'' of
            Inl err \<Rightarrow> False
          | Inr None \<Rightarrow> ts f = toISOString now
          | Inr (Some JNull) \<Rightarrow> ts f = toISOString now
          | Inr (Some (JBool c)) \<Rightarrow> ts f = (if c then ''true'' else toISOString now)
          | Inr (Some (JNum n)) \<Rightarrow> ts f = (if n = 0 then toISOString now else js_String (to_f64 n))
          | Inr (Some (JStr t)) \<Rightarrow> ts f = (if t = [] then toISOString now else t)
          | Inr (Some (JArr xs)) \<Rightarrow> join_elems xs = Inr (ts f)
          | Inr (Some (JObj kvs)) \<Rightarrow> ts f = ''[object Object]''"
    using field_string_cases [OF log_fields_ts [OF lf]] .
next
  have s: "snd (fetch now r e) = record_click f (CLICKS e)"
    using fetch_event [OF assms(2), of e] by simp
  show "filter is_put (trace (snd (fetch now r e))) =
           filter is_put (trace (CLICKS e)) @
             [KvPut (''click:'' @ take 10 (ts f) @ '':'' @ ad_id f)
                (js_String (num_add (count_of (lookup (CLICKS e) (''click:'' @ take 10 (ts f) @ '':'' @ ad_id f)))
                              (Fin 1)))
                None,
              KvPut (meta_key f) (meta_json f) (Some 2592000)]"
    unfolding s puts_record_click counter_key_def by (rule refl)
next
  fix t a :: string
  assume h: "t \<noteq> [] \<and> a \<noteq> [] \<and> length a \<le> 120"
  show "event_of now (log_req (JObj [(''ts'', JStr t), (''ad_id'', JStr a)]))
              = Some \<lparr>ts = t, ad_id = a, genre = [], page_id = [], page_url = []\<rparr>"
    using h by (simp add: event_of_def log_req_def log_fields_strings)
next
  show "toISOString 1704189296123 = ''2024-01-02T09:54:56.123Z''"
    by (rule iso_example)
qed

theorem log_day_bucket_witness:
  "filter is_put (trace (snd (fetch 1704189296123
       (log_req (JObj [(''ad_id'', JStr ''a1'')]))
       \<lparr>STATS_TOKEN = None, CLICKS = \<lparr>entries = [], page_limit = 1000, trace = []\<rparr>\<rparr>)))
     = [KvPut ''click:2024-01-02:a1'' ''1'' None,
        KvPut ''meta:a1'' ''{\"genre\":\"\",\"page_id\":\"\",\"page_url\":\"\"}'' (Some 2592000)] \<and>
   filter is_put (trace (snd (fetch 1704189296123
       (log_req (JObj [(''ts'', JNum 20240102093000), (''ad_id'', JStr ''a1'')]))
       \<lparr>STATS_TOKEN = None, CLICKS = \<lparr>entries = [], page_limit = 1000, trace = []\<rparr>\<rparr>)))
     = [KvPut ''click:2024010209:a1'' ''1'' None,
        KvPut ''meta:a1'' ''{\"genre\":\"\",\"page_id\":\"\",\"page_url\":\"\"}'' (Some 2592000)] \<and>
   filter is_put (trace (snd (fetch 1704189296123
       (log_req (JObj [(''ts'', JArr [JNum 2024, JNull, JStr ''yesterday'']), (''ad_id'', JStr ''a1'')]))
       \<lparr>STATS_TOKEN = None, CLICKS = \<lparr>entries = [], page_limit = 1000, trace = []\<rparr>\<rparr>)))
     = [KvPut ''click:2024,,yest:a1'' ''1'' None,
        KvPut ''meta:a1'' ''{\"genre\":\"\",\"page_id\":\"\",\"page_url\":\"\"}'' (Some 2592000)]"
proof -
  let ?now = "1704189296123 :: int"
  let ?e = "\<lparr>STATS_TOKEN = None, CLICKS = \<lparr>entries = [], page_limit = 1000, trace = []\<rparr>\<rparr>"
  let ?ba = "JObj [(''ad_id'', JStr ''a1'')]"
  let ?bb = "JObj [(''ts'', JNum 20240102093000), (''ad_id'', JStr ''a1'')]"
  let ?bc = "JObj [(''ts'', JArr [JNum 2024, JNull, JStr ''yesterday'']), (''ad_id'', JStr ''a1'')]"
  let ?fa = "\<lparr>ts = ''2024-01-02T09:54:56.123Z'', ad_id = ''a1'', genre = [], page_id = [], page_url = []\<rparr>"
  let ?fb = "\<lparr>ts = ''20240102093000'', ad_id = ''a1'', genre = [], page_id = [], page_url = []\<rparr>"
  let ?fc = "\<lparr>ts = ''2024,,yesterday'', ad_id = ''a1'', genre = [], page_id = [], page_url = []\<rparr>"
  have n1: "js_String (Fin 20240102093000) = ''20240102093000''"
    by (simp add: js_String_small dec.simps digit_char_def)
  have n2: "js_String (Fin 2024) = ''2024''"
    by (simp add: js_String_small dec.simps digit_char_def)
  have la: "log_fields ?now ?ba = Inr ?fa"
    by (simp add: log_fields_def field_string_def or_else_def iso_example)
  have lb: "log_fields ?now ?bb = Inr ?fb"
    by (simp add: log_fields_def field_string_def or_else_def to_f64_small n1)
  have lc: "log_fields ?now ?bc = Inr ?fc"
    by (simp add: log_fields_def field_string_def or_else_def to_f64_small n2)
  have ea: "event_of ?now (log_req ?ba) = Some ?fa"
    by (simp add: event_of_def log_req_def la)
  have eb: "event_of ?now (log_req ?bb) = Some ?fb"
    by (simp add: event_of_def log_req_def lb)
  have ec: "event_of ?now (log_req ?bc) = Some ?fc"
    by (simp add: event_of_def log_req_def lc)
  have ra: "req_json (log_req ?ba) = Some ?ba" and rb: "req_json (log_req ?bb) = Some ?bb"
    and rc: "req_json (log_req ?bc) = Some ?bc"
    by (simp_all add: log_req_def)
  have one: "js_String (num_add (count_of (lookup \<lparr>entries = [], page_limit = 1000, trace = []\<rparr> k)) (Fin 1)) = ''1''"
    for k
    by (simp add: lookup_def count_of_None to_f64_small js_String_small dec.simps digit_char_def)
  have mj: "meta_json ?fa = ''{\"genre\":\"\",\"page_id\":\"\",\"page_url\":\"\"}''"
    "meta_json ?fb = ''{\"genre\":\"\",\"page_id\":\"\",\"page_url\":\"\"}''"
    "meta_json ?fc = ''{\"genre\":\"\",\"page_id\":\"\",\"page_url\":\"\"}''"
    by (simp_all add: meta_json_plain)
  have mk: "meta_key ?fa = ''meta:a1''" "meta_key ?fb = ''meta:a1''" "meta_key ?fc = ''meta:a1''"
    by (simp_all add: meta_key_def)
  have a: "filter is_put (trace (snd (fetch ?now (log_req ?ba) ?e)))
             = [KvPut ''click:2024-01-02:a1'' ''1'' None,
                KvPut ''meta:a1'' ''{\"genre\":\"\",\"page_id\":\"\",\"page_url\":\"\"}'' (Some 2592000)]"
    using log_day_bucket [OF ra ea, of ?e] by (simp add: one mj mk)
  have b: "filter is_put (trace (snd (fetch ?now (log_req ?bb) ?e)))
             = [KvPut ''click:2024010209:a1'' ''1'' None,
                KvPut ''meta:a1'' ''{\"genre\":\"\",\"page_id\":\"\",\"page_url\":\"\"}'' (Some 2592000)]"
    using log_day_bucket [OF rb eb, of ?e] by (simp add: one mj mk)
  have c: "filter is_put (trace (snd (fetch ?now (log_req ?bc) ?e)))
             = [KvPut ''click:2024,,yest:a1'' ''1'' None,
                KvPut ''meta:a1'' ''{\"genre\":\"\",\"page_id\":\"\",\"page_url\":\"\"}'' (Some 2592000)]"
    using log_day_bucket [OF rc ec, of ?e] by (simp add: one mj mk)
  show ?thesis
    using a b c by (intro conjI)
qed

lemma list_all_update:
  assumes "list_all P al" and "P (k, v)"
  shows "list_all P (AList.update k v al)"
  using assms by (induction al) auto

lemma counter_key_ok_counter_key:
  assumes "ad_id f \<noteq> []"
  shows "counter_key_ok (counter_key f)"
proof -
  have "drop 6 (counter_key f) = take 10 (ts f) @ CHR '':'' # ad_id f"
    by (simp add: counter_key_def)
  moreover have "butlast (take 10 (ts f) @ CHR '':'' # ad_id f)
                   = take 10 (ts f) @ CHR '':'' # butlast (ad_id f)"
    using assms by (simp add: butlast_append)
  ultimately show ?thesis
    by (simp add: counter_key_ok_def)
qed

lemma counter_key_ok_iff:
  assumes "starts_with ''click:'' k"
  shows "counter_key_ok k \<longleftrightarrow> (\<exists>d a. k = ''click:'' @ d @ '':'' @ a \<and> a \<noteq> [])"
proof
  assume "counter_key_ok k"
  then have c: "CHR '':'' \<in> set (butlast (drop 6 k))"
    by (simp add: counter_key_ok_def)
  then obtain d a' where da: "butlast (drop 6 k) = d @ CHR '':'' # a'"
    by (auto simp: in_set_conv_decomp)
  have ne: "drop 6 k \<noteq> []"
    using c by auto
  have "drop 6 k = butlast (drop 6 k) @ [last (drop 6 k)]"
    using append_butlast_last_id [OF ne] by (rule sym)
  then have r: "drop 6 k = d @ '':'' @ (a' @ [last (drop 6 k)])"
    using da by simp
  have "k = take 6 k @ drop 6 k"
    by simp
  moreover have "take 6 k = ''click:''"
  proof -
    have l: "length ''click:'' = 6" by simp
    show ?thesis using assms unfolding starts_with_def l .
  qed
  ultimately have "k = ''click:'' @ d @ '':'' @ (a' @ [last (drop 6 k)])"
    using r by metis
  then show "\<exists>d a. k = ''click:'' @ d @ '':'' @ a \<and> a \<noteq> []"
    by blast
next
  assume "\<exists>d a. k = ''click:'' @ d @ '':'' @ a \<and> a \<noteq> []"
  then obtain d a where k: "k = ''click:'' @ d @ '':'' @ a" and a: "a \<noteq> []"
    by blast
  have "drop 6 k = d @ CHR '':'' # a"
    by (simp add: k)
  moreover have "butlast (d @ CHR '':'' # a) = d @ CHR '':'' # butlast a"
    using a by (simp add: butlast_append)
  ultimately show "counter_key_ok k"
    by (simp add: counter_key_ok_def)
qed

lemma shortest_one_digit:
  assumes "cands m 1 = [c]"
  shows "shortest m = (fst c, 1, snd c)"
proof -
  have "[1..<18] = 1 # [2..<18]"
    by (simp add: upt_conv_Cons)
  then have "filter (\<lambda>k. cands m k \<noteq> []) [1..<18] = 1 # filter (\<lambda>k. cands m k \<noteq> []) [2..<18]"
    using assms by simp
  then show ?thesis
    unfolding shortest_def using assms by (simp add: split_beta)
qed

lemma bitlen_1e21: "bitlen 1000000000000000000000 = 70" "bitlen 1000000000000000000001 = 70"
  "bitlen 2000000000000000000000 = 71" "bitlen 10000000000000000000000 = 74"
  by (simp_all add: bitlen.simps)

lemma round53_1e21: "round53 1000000000000000000000 = 1000000000000000000000"
  "round53 1000000000000000000001 = 1000000000000000000000"
  "round53 2000000000000000000000 = 2000000000000000000000"
  "round53 10000000000000000000000 = 10000000000000000000000"
  by (simp_all add: round53_def bitlen_1e21 Let_def)

lemma to_f64_1e21: "to_f64 1000000000000000000000 = Fin 1000000000000000000000"
  "to_f64 1000000000000000000001 = Fin 1000000000000000000000"
  "to_f64 2000000000000000000000 = Fin 2000000000000000000000"
  "to_f64 10000000000000000000000 = Fin 10000000000000000000000"
  by (simp_all add: to_f64_def round53_1e21 Let_def)

lemma dec_1e21: "dec 1000000000000000000000 = ''1000000000000000000000''"
  by (simp add: dec.simps digit_char_def)

lemma cands_1e21: "cands 1000000000000000000000 1 = [(1, 22)]"
  by (simp add: cands_def dec_1e21 to_f64_1e21)

lemma js_String_1e21: "js_String (Fin 1000000000000000000000) = ''1e+21''"
  by (simp add: js_String.simps(4) nat_String_def shortest_one_digit [OF cands_1e21]
        dec.simps digit_char_def)

lemma count_of_1e21: "count_of (Some ''1000000000000000000000'') = Fin 1000000000000000000000"
  by (simp add: count_of_def parse_defs to_f64_1e21)

lemma is_count_string_dec: "is_count_string (dec n)"
  by (simp add: is_count_string_def dec_nonempty dec_digits)

lemma written_count:
  assumes "0 \<le> c" and "c \<le> 2 ^ 53"
  shows "is_count_string (js_String (num_add (Fin c) (Fin 1))) \<and>
         digits_val (js_String (num_add (Fin c) (Fin 1))) \<le> 2 ^ 53"
proof (cases "c < 2 ^ 53")
  case True
  have b: "\<bar>c + 1\<bar> \<le> 2 ^ 53"
    using assms(1) True by simp
  have "num_add (Fin c) (Fin 1) = Fin (c + 1)"
    using assms(1) True by (intro num_add_one) simp_all
  then have w: "js_String (num_add (Fin c) (Fin 1)) = dec (nat (c + 1))"
    using js_String_small [OF b] assms(1) by simp
  have "nat (c + 1) \<le> 2 ^ 53"
    using b by (simp add: nat_le_iff)
  then show ?thesis
    unfolding w by (simp add: is_count_string_dec digits_val_dec)
next
  case False
  then have c: "c = 9007199254740992"
    using assms(2) by simp
  have b: "\<bar>9007199254740992 :: int\<bar> \<le> 2 ^ 53"
    by simp
  have w: "js_String (num_add (Fin c) (Fin 1)) = dec 9007199254740992"
    unfolding c num_add_one_top js_String_small [OF b] by simp
  show ?thesis
    unfolding w by (simp add: is_count_string_dec digits_val_dec)
qed

lemma count_of_count_string:
  assumes "is_count_string s" and "digits_val s \<le> 2 ^ 53"
  shows "count_of (Some s) = Fin (int (digits_val s))"
proof -
  have p: "parseInt10 s = Fin (int (digits_val s))"
    using assms by (simp add: is_count_string_def parseInt10_digits to_f64_small)
  have "s \<noteq> []"
    using assms(1) by (simp add: is_count_string_def)
  then show ?thesis
    by (auto simp: count_of_def p)
qed

lemma count_of_lookup53:
  assumes "store_inv53 st" and "starts_with ''click:'' k"
  shows "\<exists>c. count_of (lookup st k) = Fin c \<and> 0 \<le> c \<and> c \<le> 2 ^ 53"
proof (cases "map_of (entries st) k")
  case None
  then show ?thesis by (simp add: lookup_def count_of_None)
next
  case (Some v)
  then have "(k, v) \<in> set (entries st)"
    by (rule map_of_SomeD)
  then have s: "is_count_string (content v)" "digits_val (content v) \<le> 2 ^ 53"
    using assms by (auto simp: store_inv53_def list_all_iff)
  have "count_of (lookup st k) = Fin (int (digits_val (content v)))"
    using Some count_of_count_string [OF s] by (simp add: lookup_def)
  moreover have "int (digits_val (content v)) \<le> 2 ^ 53"
    using s(2) by (simp add: of_nat_le_iff [of _ "2 ^ 53", simplified])
  ultimately show ?thesis by simp
qed

lemma store_inv53_record_click:
  assumes "store_inv53 st" and "ad_id f \<noteq> []"
  shows "store_inv53 (record_click f st)"
proof -
  let ?P = "\<lambda>(k, v). \<not> starts_with ''click:'' k \<or>
              (counter_key_ok k \<and> is_count_string (content v) \<and> digits_val (content v) \<le> 2 ^ 53)"
  let ?w = "js_String (num_add (count_of (lookup st (counter_key f))) (Fin 1))"
  let ?c = "\<lparr>content = ?w, ttl = None\<rparr>"
  let ?m = "\<lparr>content = meta_json f, ttl = Some (60 * 60 * 24 * 30)\<rparr>"
  have e: "entries (record_click f st)
             = AList.update (meta_key f) ?m (AList.update (counter_key f) ?c (entries st))"
    by (simp add: record_click_def kv_get_def kv_put_def Let_def lookup_def)
  obtain c where c: "count_of (lookup st (counter_key f)) = Fin c" "0 \<le> c" "c \<le> 2 ^ 53"
    using count_of_lookup53 [OF assms(1) starts_with_click_counter] by blast
  have "is_count_string ?w \<and> digits_val ?w \<le> 2 ^ 53"
    unfolding c(1) using c(2,3) by (rule written_count)
  then have pc: "?P (counter_key f, ?c)"
    using counter_key_ok_counter_key [OF assms(2)] by simp
  have pm: "?P (meta_key f, ?m)"
    using starts_with_click_meta [of "ad_id f"] by (simp add: meta_key_def)
  have "list_all ?P (entries st)"
    using assms(1) by (simp add: store_inv53_def)
  then have "list_all ?P (AList.update (meta_key f) ?m (AList.update (counter_key f) ?c (entries st)))"
    by (intro list_all_update pc pm)
  then show ?thesis
    unfolding store_inv53_def e .
qed

lemma store_inv53_entries: "entries st' = entries st \<Longrightarrow> store_inv53 st' = store_inv53 st"
  by (simp add: store_inv53_def)

section \<open>The counter invariant (C8)\<close>

text \<open>
  C8. The claim: under every key \<open>click:<day>:<ad_id>\<close> the store holds a non-negative
  integer in decimal, with a non-empty \<open>ad_id\<close>, and every request preserves this. A
  store that holds the count 1000000000000000000000 (\<open>10^21\<close>) satisfies it; a valid log
  request for that counter reads the number, adds one (which rounds back), and writes
  \<open>String\<close> of it, which from \<open>10^21\<close> on is written with an exponent: \<open>1e+21\<close>. The
  store it leaves does not satisfy the invariant.
\<close>

theorem counter_invariant_broken:
  "store_inv \<lparr>entries = [(''click:2024-01-02:a1'', \<lparr>content = ''1000000000000000000000'', ttl = None\<rparr>)],
             page_limit = 1000, trace = []\<rparr> \<and>
   lookup (snd (fetch 0
       (log_req (JObj [(''ts'', JStr ''2024-01-02T10:00:00.000Z''), (''ad_id'', JStr ''a1'')]))
       \<lparr>STATS_TOKEN = None,
        CLICKS = \<lparr>entries = [(''click:2024-01-02:a1'', \<lparr>content = ''1000000000000000000000'', ttl = None\<rparr>)],
                  page_limit = 1000, trace = []\<rparr>\<rparr>)) ''click:2024-01-02:a1''
     = Some ''1e+21'' \<and>
   \<not> store_inv (snd (fetch 0
       (log_req (JObj [(''ts'', JStr ''2024-01-02T10:00:00.000Z''), (''ad_id'', JStr ''a1'')]))
       \<lparr>STATS_TOKEN = None,
        CLICKS = \<lparr>entries = [(''click:2024-01-02:a1'', \<lparr>content = ''1000000000000000000000'', ttl = None\<rparr>)],
                  page_limit = 1000, trace = []\<rparr>\<rparr>))"
proof -
  let ?b = "JObj [(''ts'', JStr ''2024-01-02T10:00:00.000Z''), (''ad_id'', JStr ''a1'')]"
  let ?f = "\<lparr>ts = ''2024-01-02T10:00:00.000Z'', ad_id = ''a1'', genre = [], page_id = [],
             page_url = []\<rparr>"
  let ?st = "\<lparr>entries = [(''click:2024-01-02:a1'', \<lparr>content = ''1000000000000000000000'', ttl = None\<rparr>)],
              page_limit = 1000, trace = []\<rparr>"
  have lf: "log_fields 0 ?b = Inr ?f"
    by (simp add: log_fields_def field_string_def or_else_def)
  have ev: "event_of 0 (log_req ?b) = Some ?f"
    by (simp add: event_of_def log_req_def lf)
  have s: "snd (fetch 0 (log_req ?b) \<lparr>STATS_TOKEN = None, CLICKS = ?st\<rparr>) = record_click ?f ?st"
    using fetch_event [OF ev, of "\<lparr>STATS_TOKEN = None, CLICKS = ?st\<rparr>"] by simp
  have ck: "counter_key ?f = ''click:2024-01-02:a1''" and mk: "meta_key ?f = ''meta:a1''"
    by (simp_all add: counter_key_def meta_key_def)
  have lk: "lookup ?st ''click:2024-01-02:a1'' = Some ''1000000000000000000000''"
    by (simp add: lookup_def)
  have w: "js_String (num_add (count_of (lookup ?st ''click:2024-01-02:a1'')) (Fin 1)) = ''1e+21''"
    unfolding lk count_of_1e21 by (simp add: to_f64_1e21 js_String_1e21)
  have e: "entries (record_click ?f ?st)
             = [(''click:2024-01-02:a1'', \<lparr>content = ''1e+21'', ttl = None\<rparr>),
                (''meta:a1'', \<lparr>content = meta_json ?f, ttl = Some 2592000\<rparr>)]"
    using w by (simp add: record_click_def kv_get_def kv_put_def Let_def ck mk)
  have i0: "store_inv ?st"
    by (simp add: store_inv_def starts_with_def counter_key_ok_def is_count_string_def is_digit_def)
  have l1: "lookup (record_click ?f ?st) ''click:2024-01-02:a1'' = Some ''1e+21''"
    by (simp add: lookup_def e)
  have i1: "\<not> store_inv (record_click ?f ?st)"
    by (simp add: store_inv_def e starts_with_def counter_key_ok_def is_count_string_def is_digit_def)
  show ?thesis
    unfolding s using i0 l1 i1 by (intro conjI)
qed

text \<open>
  C8, as amended. The invariant: under every key that starts with \<open>click:\<close> the store
  holds a non-negative integer of at most \<open>2^53\<close> in decimal, and the key reads
  \<open>click:<day>:<ad_id>\<close> with a non-empty \<open>ad_id\<close>; a key that is absent counts as 0. It
  holds of the empty store and every request the handler serves, whatever its route and
  outcome, preserves it.
\<close>

theorem counter_invariant:
  "store_inv53 \<lparr>entries = [], page_limit = n, trace = t\<rparr> \<and>
   (store_inv53 (CLICKS e) \<longrightarrow> store_inv53 (snd (fetch now r e))) \<and>
   (store_inv53 (CLICKS e) \<longrightarrow> store_inv (CLICKS e)) \<and>
   count_of None = Fin 0"
proof (intro conjI impI)
  show "store_inv53 \<lparr>entries = [], page_limit = n, trace = t\<rparr>"
    by (simp add: store_inv53_def)
  show "count_of None = Fin 0"
    by (rule count_of_None)
  show "store_inv (CLICKS e)" if "store_inv53 (CLICKS e)"
    using that by (auto simp: store_inv_def store_inv53_def list_all_iff)
  assume inv: "store_inv53 (CLICKS e)"
  show "store_inv53 (snd (fetch now r e))"
  proof (cases "event_of now r")
    case None
    then have "entries (snd (fetch now r e)) = entries (CLICKS e)"
      using fetch_no_event [of now r e] by simp
    then show ?thesis
      using inv store_inv53_entries by blast
  next
    case (Some f)
    then have "ad_id f \<noteq> []"
      using event_ofD by blast
    then show ?thesis
      using fetch_event [OF Some, of e] store_inv53_record_click [OF inv] by simp
  qed
qed

theorem counter_invariant_witness:
  "store_inv53 \<lparr>entries = [(''click:2024-01-02:a1'', \<lparr>content = ''41'', ttl = None\<rparr>),
                          (''meta:a1'', \<lparr>content = ''{}'', ttl = Some 2592000\<rparr>)],
               page_limit = 1000, trace = []\<rparr> \<and>
   store_inv53 (snd (fetch 0
       (log_req (JObj [(''ts'', JStr ''2024-01-02T10:00:00.000Z''), (''ad_id'', JStr ''a1'')]))
       \<lparr>STATS_TOKEN = None,
        CLICKS = \<lparr>entries = [(''click:2024-01-02:a1'', \<lparr>content = ''41'', ttl = None\<rparr>),
                             (''meta:a1'', \<lparr>content = ''{}'', ttl = Some 2592000\<rparr>)],
                  page_limit = 1000, trace = []\<rparr>\<rparr>)) \<and>
   store_inv \<lparr>entries = [(''click:2024-01-02:a1'', \<lparr>content = ''41'', ttl = None\<rparr>),
                        (''meta:a1'', \<lparr>content = ''{}'', ttl = Some 2592000\<rparr>)],
             page_limit = 1000, trace = []\<rparr> \<and>
   lookup (snd (fetch 0
       (log_req (JObj [(''ts'', JStr ''2024-01-02T10:00:00.000Z''), (''ad_id'', JStr ''a1'')]))
       \<lparr>STATS_TOKEN = None,
        CLICKS = \<lparr>entries = [(''click:2024-01-02:a1'', \<lparr>content = ''41'', ttl = None\<rparr>),
                             (''meta:a1'', \<lparr>content = ''{}'', ttl = Some 2592000\<rparr>)],
                  page_limit = 1000, trace = []\<rparr>\<rparr>)) ''click:2024-01-02:a1'' = Some ''42''"
proof -
  let ?st = "\<lparr>entries = [(''click:2024-01-02:a1'', \<lparr>content = ''41'', ttl = None\<rparr>),
                          (''meta:a1'', \<lparr>content = ''{}'', ttl = Some 2592000\<rparr>)],
               page_limit = 1000, trace = []\<rparr>"
  let ?b = "JObj [(''ts'', JStr ''2024-01-02T10:00:00.000Z''), (''ad_id'', JStr ''a1'')]"
  let ?f = "\<lparr>ts = ''2024-01-02T10:00:00.000Z'', ad_id = ''a1'', genre = [], page_id = [],
             page_url = []\<rparr>"
  have h: "store_inv53 ?st"
    by (simp add: store_inv53_def starts_with_def counter_key_ok_def is_count_string_def is_digit_def
          digits_val_def digit_val_def)
  have lf: "log_fields 0 ?b = Inr ?f"
    by (simp add: log_fields_def field_string_def or_else_def)
  have ev: "event_of 0 (log_req ?b) = Some ?f"
    by (simp add: event_of_def log_req_def lf)
  have ck: "counter_key ?f = ''click:2024-01-02:a1''"
    by (simp add: counter_key_def)
  have lk: "lookup ?st ''click:2024-01-02:a1'' = Some ''41''"
    by (simp add: lookup_def)
  have cur: "count_of (Some ''41'') = Fin 41"
    by (simp add: count_of_def parse_defs to_f64_small)
  have w: "js_String (num_add (Fin 41) (Fin 1)) = ''42''"
    by (simp add: to_f64_small js_String_small dec.simps digit_char_def)
  have "lookup (record_click ?f ?st) (counter_key ?f)
          = Some (js_String (num_add (count_of (lookup ?st (counter_key ?f))) (Fin 1)))"
    using keys_differ [of ?f] by (simp add: lookup_record_click)
  then have "lookup (record_click ?f ?st) ''click:2024-01-02:a1'' = Some ''42''"
    unfolding ck lk cur w .
  then have l: "lookup (snd (fetch 0 (log_req ?b) \<lparr>STATS_TOKEN = None, CLICKS = ?st\<rparr>))
                  ''click:2024-01-02:a1'' = Some ''42''"
    using fetch_event [OF ev, of "\<lparr>STATS_TOKEN = None, CLICKS = ?st\<rparr>"] by simp
  show ?thesis
    using h l counter_invariant [of 0 "[]" "\<lparr>STATS_TOKEN = None, CLICKS = ?st\<rparr>" 0 "log_req ?b"]
    by simp
qed

section \<open>Requests without an \<open>ad_id\<close> (C5, C10)\<close>

lemma log_not_event_no_mutation:
  assumes "req_path r = ''/log''" and "req_method r = ''POST''" and "event_of now r = None"
  shows "snd (fetch now r e) = CLICKS e"
  using assms
  by (auto simp: fetch_def handle_log_def event_of_def split: option.splits sum.splits if_splits)

lemma log_missing_ad_id:
  assumes "req_path r = ''/log''" and "req_method r = ''POST''"
    and "req_json r = Some b" and "log_fields now b = Inr f" and "ad_id f = []"
  shows "fetch now r e = (Inr \<lparr>status = 400, body = Text ''missing ad_id''\<rparr>, CLICKS e)"
  using assms by (simp add: fetch_def handle_log_def)

lemma falsy_ad_id_is_empty:
  assumes "case map_of kvs ''ad_id'' of None \<Rightarrow> True | Some v \<Rightarrow> \<not> truthy v"
  shows "field_string (JObj kvs) ''ad_id'' (JStr []) = Inr []"
  using assms by (auto simp: field_string_def or_else_def split: option.splits)

lemma log_fields_ad_id:
  assumes "log_fields now b = Inr f"
  shows "\<exists>s. field_string b ''ad_id'' (JStr []) = Inr s \<and> ad_id f = take 120 s"
  using assms by (auto simp: log_fields_def split: sum.splits)

lemma log_falsy_ad_id:
  assumes "req_path r = ''/log''" and "req_method r = ''POST''"
    and "req_json r = Some (JObj kvs)" and "log_fields now (JObj kvs) = Inr f"
    and "case map_of kvs ''ad_id'' of None \<Rightarrow> True | Some v \<Rightarrow> \<not> truthy v"
  shows "fetch now r e = (Inr \<lparr>status = 400, body = Text ''missing ad_id''\<rparr>, CLICKS e)"
proof -
  have "ad_id f = []"
    using log_fields_ad_id [OF assms(4)] falsy_ad_id_is_empty [OF assms(5)] by auto
  then show ?thesis
    using log_missing_ad_id assms(1-4) by blast
qed

text \<open>
  C5. The claim: a \<open>POST /log\<close> whose body parses and whose \<open>ad_id\<close> coerces to the empty
  string is answered 400 "missing ad_id", with no write. The worker answers so when every
  coercion of lines 17 to 21 returns (\<open>log_missing_ad_id\<close>), and it never writes
  (\<open>log_not_event_no_mutation\<close>); but the check of line 23 runs after the coercions, none
  of which is guarded. With the body \<open>{"genre": {"toString": 1}}\<close> the \<open>ad_id\<close> coerces
  to the empty string and line 19 throws a TypeError, and with the body \<open>null\<close> line 17
  throws: the request ends in an exception, not in the 400 response.
\<close>

theorem missing_ad_id_throws:
  "field_string (JObj [(''genre'', JObj [(''toString'', JNum 1)])]) ''ad_id'' (JStr []) = Inr [] \<and>
   fetch now (log_req (JObj [(''genre'', JObj [(''toString'', JNum 1)])])) e = (Inl TypeError, CLICKS e) \<and>
   fetch now (log_req JNull) e = (Inl TypeError, CLICKS e)"
proof (intro conjI)
  show "field_string (JObj [(''genre'', JObj [(''toString'', JNum 1)])]) ''ad_id'' (JStr []) = Inr []"
    by (simp add: field_string_def or_else_def)
  have "log_fields now (JObj [(''genre'', JObj [(''toString'', JNum 1)])]) = Inl TypeError"
    by (simp add: log_fields_def field_string_def or_else_def)
  then show "fetch now (log_req (JObj [(''genre'', JObj [(''toString'', JNum 1)])])) e
               = (Inl TypeError, CLICKS e)"
    by (simp add: fetch_def handle_log_def log_req_def)
  have "log_fields now JNull = Inl TypeError"
    by (simp add: log_fields_def field_string_def)
  then show "fetch now (log_req JNull) e = (Inl TypeError, CLICKS e)"
    by (simp add: fetch_def handle_log_def log_req_def)
qed

text \<open>
  C10. The claim: a \<open>POST /log\<close> whose body holds a falsy \<open>ad_id\<close> (0, false, null or the
  empty string) is answered 400 "missing ad_id", with no write, as if the field were
  absent. A falsy \<open>ad_id\<close> does coerce to the empty string, as an absent one
  (\<open>falsy_ad_id_is_empty\<close>), and the answer is the 400 when every coercion returns
  (\<open>log_falsy_ad_id\<close>); but with the body \<open>{"ad_id": 0, "genre": {"toString": 1}}\<close> line
  19 throws a TypeError before the check of line 23, and the request ends in an
  exception.
\<close>

theorem falsy_ad_id_throws:
  "\<not> truthy (JNum 0) \<and>
   field_string (JObj [(''ad_id'', JNum 0), (''genre'', JObj [(''toString'', JNum 1)])]) ''ad_id'' (JStr [])
     = Inr [] \<and>
   fetch now (log_req (JObj [(''ad_id'', JNum 0), (''genre'', JObj [(''toString'', JNum 1)])])) e
     = (Inl TypeError, CLICKS e)"
proof (intro conjI)
  show "\<not> truthy (JNum 0)"
    by (simp add: to_f64_small)
  show "field_string (JObj [(''ad_id'', JNum 0), (''genre'', JObj [(''toString'', JNum 1)])]) ''ad_id'' (JStr [])
     = Inr []"
    by (simp add: field_string_def or_else_def to_f64_small)
  have "log_fields now (JObj [(''ad_id'', JNum 0), (''genre'', JObj [(''toString'', JNum 1)])])
          = Inl TypeError"
    by (simp add: log_fields_def field_string_def or_else_def to_f64_small)
  then show "fetch now (log_req (JObj [(''ad_id'', JNum 0), (''genre'', JObj [(''toString'', JNum 1)])])) e
     = (Inl TypeError, CLICKS e)"
    by (simp add: fetch_def handle_log_def log_req_def)
qed

section \<open>The scan as a fold, and the fold as a sum\<close>

lemma lookup_entries: "entries st' = entries st \<Longrightarrow> lookup st' k = lookup st k"
  by (simp add: lookup_def)

lemma matching_entries: "entries st' = entries st \<Longrightarrow> matching st' p = matching st p"
  by (simp add: matching_def)

lemma day_counts_entries: "entries st' = entries st \<Longrightarrow> day_counts st' p = day_counts st p"
  by (simp add: day_counts_def lookup_def matching_def)

lemma add_all_append: "add_all obj (cs @ ds) = add_all (add_all obj cs) ds"
  by (simp add: add_all_def)

lemma scan_keys_fold:
  "fst (scan_keys st p ks acc)
     = add_all acc (map (\<lambda>k. (drop (length p) k, count_of (lookup st k))) ks)"
proof (induction ks arbitrary: st acc)
  case Nil
  show ?case by (simp add: add_all_def)
next
  case (Cons k ks)
  let ?st1 = "st\<lparr>trace := trace st @ [KvGet k]\<rparr>"
  have l: "lookup ?st1 = lookup st"
    by (rule ext) (simp add: lookup_def)
  have "fst (scan_keys st p (k # ks) acc)
          = fst (scan_keys ?st1 p ks (add_count acc (drop (length p) k) (count_of (lookup st k))))"
    by (simp add: kv_get_def)
  also have "\<dots> = add_all (add_count acc (drop (length p) k) (count_of (lookup st k)))
                      (map (\<lambda>k. (drop (length p) k, count_of (lookup st k))) ks)"
    unfolding Cons.IH l by (rule refl)
  finally show ?case by (simp add: add_all_def)
qed

lemma scan_prefix_fold:
  "fst (scan_prefix st p cursor acc)
     = add_all acc (drop (case cursor of None \<Rightarrow> 0 | Some c \<Rightarrow> c) (day_counts st p))"
proof (induction st p cursor acc rule: scan_prefix.induct)
  case (1 st p cursor acc)
  let ?off = "case cursor of None \<Rightarrow> 0 | Some c \<Rightarrow> c"
  let ?lim = "max 1 (page_limit st)"
  let ?f = "\<lambda>k. (drop (length p) k, count_of (lookup st k))"
  obtain names cursor' st1 where l: "kv_list st p cursor = (names, cursor', st1)"
    by (cases "kv_list st p cursor") auto
  obtain acc' st2 where k: "scan_keys st1 p names acc = (acc', st2)"
    by (cases "scan_keys st1 p names acc") auto
  have n: "names = take ?lim (drop ?off (matching st p))"
    and c: "cursor' = (if ?off + ?lim < length (matching st p) then Some (?off + ?lim) else None)"
    and e1: "entries st1 = entries st"
    using l by (auto simp: kv_list_def Let_def)
  have e2: "entries st2 = entries st"
    using k entries_scan_keys [of st1 p names acc] e1 by simp
  have "acc' = add_all acc (map (\<lambda>k. (drop (length p) k, count_of (lookup st1 k))) names)"
    using k scan_keys_fold [of st1 p names acc] by simp
  then have a: "acc' = add_all acc (take ?lim (drop ?off (day_counts st p)))"
    by (simp add: n lookup_entries [OF e1] day_counts_def take_map drop_map)
  show ?case
  proof (cases cursor')
    case None
    then have "length (matching st p) \<le> ?off + ?lim"
      using c by (simp split: if_splits)
    then have "take ?lim (drop ?off (day_counts st p)) = drop ?off (day_counts st p)"
      by (simp add: day_counts_def)
    then show ?thesis
      using l k None a by (simp add: scan_prefix.simps [of st p cursor acc])
  next
    case (Some c')
    then have c': "c' = ?off + ?lim"
      using c by (simp split: if_splits)
    have "fst (scan_prefix st p cursor acc) = fst (scan_prefix st2 p (Some c') acc')"
      using l k Some by (simp add: scan_prefix.simps [of st p cursor acc])
    also have "\<dots> = add_all acc' (drop c' (day_counts st2 p))"
      using "1.IH" [OF l [symmetric] refl k [symmetric] Some] by simp
    also have "\<dots> = add_all acc (take ?lim (drop ?off (day_counts st p)) @ drop ?lim (drop ?off (day_counts st p)))"
      unfolding add_all_append a day_counts_entries [OF e2] c' by (simp add: add.commute)
    finally show ?thesis
      unfolding append_take_drop_id .
  qed
qed

lemma scan_fold_fold:
  "fst (fold (\<lambda>i (acc, s). scan_prefix s (pf i) None acc) is (acc0, st))
     = add_all acc0 (concat (map (\<lambda>i. day_counts st (pf i)) is))"
proof (induction "is" arbitrary: acc0 st)
  case Nil
  show ?case by (simp add: add_all_def)
next
  case (Cons i "is")
  obtain a s where sp: "scan_prefix st (pf i) None acc0 = (a, s)"
    by (cases "scan_prefix st (pf i) None acc0") auto
  have a: "a = add_all acc0 (day_counts st (pf i))"
    using scan_prefix_fold [of st "pf i" None acc0] sp by simp
  have e: "entries s = entries st"
    using scan_prefix_frame [of st "pf i" None acc0] sp by simp
  have d: "(\<lambda>i. day_counts s (pf i)) = (\<lambda>i. day_counts st (pf i))"
    by (rule ext) (rule day_counts_entries [OF e])
  have "fst (fold (\<lambda>i (acc, s). scan_prefix s (pf i) None acc) (i # is) (acc0, st))
          = fst (fold (\<lambda>i (acc, s). scan_prefix s (pf i) None acc) is (a, s))"
    by (simp add: sp)
  also have "\<dots> = add_all a (concat (map (\<lambda>i. day_counts st (pf i)) is))"
    unfolding Cons.IH d by (rule refl)
  finally show ?case
    by (simp add: a add_all_append)
qed

lemma scan_days_fold: "fst (scan_days now days st) = add_all [] (window_counts now days st)"
  unfolding scan_days_def window_counts_def by (rule scan_fold_fold)

lemma small_valD: "small_val b v \<Longrightarrow> \<exists>t. v = Num (Fin t) \<and> 0 \<le> t \<and> t \<le> b"
  by (cases "(b, v)" rule: small_val.cases) simp_all

lemma small_val_mono: "small_val b v \<Longrightarrow> b \<le> b' \<Longrightarrow> small_val b' v"
  by (cases "(b, v)" rule: small_val.cases) simp_all

lemma values_upto_update:
  assumes "values_upto b obj" and "0 \<le> t" and "t \<le> b'" and "b \<le> b'"
  shows "values_upto b' (AList.update a (Num (Fin t)) obj)"
proof -
  have "list_all (\<lambda>c. small_val b' (snd c)) obj"
    using assms(1,4) unfolding values_upto_def list_all_iff by (blast intro: small_val_mono)
  then show ?thesis
    unfolding values_upto_def using assms(2,3) by (intro list_all_update) simp_all
qed

lemma values_upto_lookup:
  assumes "values_upto b obj" and "map_of obj a = Some v"
  shows "\<exists>t. v = Num (Fin t) \<and> 0 \<le> t \<and> t \<le> b"
proof -
  have "(a, v) \<in> set obj"
    using assms(2) by (rule map_of_SomeD)
  then have "small_val b v"
    using assms(1) by (auto simp: values_upto_def list_all_iff)
  then show ?thesis
    by (rule small_valD)
qed

lemma tally_bounds:
  assumes "values_upto b obj" and "0 \<le> b"
  shows "0 \<le> tally obj a \<and> tally obj a \<le> b"
proof (cases "map_of obj a")
  case None
  then show ?thesis using assms(2) by (simp add: tally_def)
next
  case (Some v)
  then show ?thesis
    using values_upto_lookup [OF assms(1) Some] by (auto simp: tally_def)
qed

lemma add_count_number:
  assumes "values_upto b obj" and "0 \<le> b" and "inherited a = None" and "0 \<le> n" and "b + n \<le> 2 ^ 53"
  shows "add_count obj a (Fin n) = AList.update a (Num (Fin (tally obj a + n))) obj"
proof -
  have t: "0 \<le> tally obj a \<and> tally obj a \<le> b"
    using tally_bounds [OF assms(1,2)] .
  then have r: "to_f64 (tally obj a + n) = Fin (tally obj a + n)"
    using assms(4,5) by (intro to_f64_small) simp
  show ?thesis
  proof (cases "map_of obj a")
    case None
    then show ?thesis
      using assms(3) r by (simp add: add_count_def tally_def)
  next
    case (Some v)
    then obtain u where v: "v = Num (Fin u)"
      using values_upto_lookup [OF assms(1)] by blast
    have "tally obj a = u"
      using Some v by (simp add: tally_def)
    then show ?thesis
      using Some v r by (auto simp: add_count_def)
  qed
qed

lemma total_for_Cons: "total_for (c # cs) a = (if fst c = a then fin_count c else 0) + total_for cs a"
  by (simp add: total_for_def)

lemma total_for_absent: "a \<notin> fst ` set cs \<Longrightarrow> total_for cs a = 0"
  by (induction cs) (auto simp: total_for_def)

lemma add_all_sums:
  assumes "values_upto b obj" and "0 \<le> b"
    and "list_all (\<lambda>c. inherited (fst c) = None \<and> snd c = Fin (fin_count c) \<and> 0 \<le> fin_count c) cs"
    and "b + sum_list (map fin_count cs) \<le> 2 ^ 53"
  shows "\<forall>a. map_of (add_all obj cs) a =
                (if a \<in> fst ` set cs then Some (Num (Fin (tally obj a + total_for cs a))) else map_of obj a)"
  using assms
proof (induction cs arbitrary: obj b)
  case Nil
  then show ?case by (simp add: add_all_def)
next
  case (Cons c cs)
  let ?n = "fin_count c"
  let ?obj = "AList.update (fst c) (Num (Fin (tally obj (fst c) + ?n))) obj"
  have c: "inherited (fst c) = None" "snd c = Fin ?n" "0 \<le> ?n"
    using Cons.prems(3) by simp_all
  have rest: "list_all (\<lambda>c. inherited (fst c) = None \<and> snd c = Fin (fin_count c) \<and> 0 \<le> fin_count c) cs"
    using Cons.prems(3) by simp
  have nonneg: "0 \<le> sum_list (map fin_count cs)"
    using rest by (intro sum_list_nonneg) (auto simp: list_all_iff)
  have bn: "b + ?n \<le> 2 ^ 53"
    using Cons.prems(4) nonneg by simp
  have "add_count obj (fst c) (Fin ?n) = ?obj"
    using Cons.prems(1,2) c(1,3) bn by (rule add_count_number)
  then have step: "add_count obj (fst c) (snd c) = ?obj"
    using c(2) by simp
  have tb: "0 \<le> tally obj (fst c) \<and> tally obj (fst c) \<le> b"
    using tally_bounds [OF Cons.prems(1,2)] .
  have num: "values_upto (b + ?n) ?obj"
  proof (rule values_upto_update [OF Cons.prems(1)])
    show "0 \<le> tally obj (fst c) + ?n" using tb c(3) by linarith
    show "tally obj (fst c) + ?n \<le> b + ?n" using tb by linarith
    show "b \<le> b + ?n" using c(3) by linarith
  qed
  have b0: "0 \<le> b + ?n"
    using Cons.prems(2) c(3) by linarith
  have b1: "b + ?n + sum_list (map fin_count cs) \<le> 2 ^ 53"
    using Cons.prems(4) by simp
  have ih: "\<forall>a. map_of (add_all ?obj cs) a =
                (if a \<in> fst ` set cs then Some (Num (Fin (tally ?obj a + total_for cs a))) else map_of ?obj a)"
    using num b0 rest b1 by (rule Cons.IH)
  have unfold: "add_all obj (c # cs) = add_all ?obj cs"
    by (simp add: add_all_def step)
  have t: "tally ?obj a = (if a = fst c then tally obj a + ?n else tally obj a)" for a
    by (simp add: tally_def update_conv')
  have m: "map_of ?obj a = (if a = fst c then Some (Num (Fin (tally obj a + ?n))) else map_of obj a)" for a
    by (simp add: update_conv')
  show ?case
  proof
    fix a
    have "map_of (add_all ?obj cs) a =
            (if a \<in> fst ` set cs then Some (Num (Fin (tally ?obj a + total_for cs a))) else map_of ?obj a)"
      using ih by blast
    then show "map_of (add_all obj (c # cs)) a =
            (if a \<in> fst ` set (c # cs) then Some (Num (Fin (tally obj a + total_for (c # cs) a)))
             else map_of obj a)"
      unfolding unfold by (auto simp: t m total_for_Cons total_for_absent)
  qed
qed

lemma stats_sums:
  assumes "req_path r = ''/stats''" and "req_method r = ''GET''" and "isAuthed r e"
    and "small_counts (window_counts now (nat (stats_days (req_days r))) (CLICKS e))"
  shows "\<exists>obj st.
           fetch now r e = (Inr \<lparr>status = 200, body = StatsJson (stats_days (req_days r)) obj\<rparr>, st) \<and>
           (\<forall>a. map_of obj a =
              (if a \<in> fst ` set (window_counts now (nat (stats_days (req_days r))) (CLICKS e))
               then Some (Num (Fin (total_for (window_counts now (nat (stats_days (req_days r))) (CLICKS e)) a)))
               else None))"
proof -
  let ?w = "window_counts now (nat (stats_days (req_days r))) (CLICKS e)"
  obtain obj st where sd: "scan_days now (nat (stats_days (req_days r))) (CLICKS e) = (obj, st)"
    by (cases "scan_days now (nat (stats_days (req_days r))) (CLICKS e)") auto
  have f: "fetch now r e = (Inr \<lparr>status = 200, body = StatsJson (stats_days (req_days r)) obj\<rparr>, st)"
    using assms(1-3) sd by (simp add: fetch_def handle_stats_def Let_def)
  have o: "obj = add_all [] ?w"
    using scan_days_fold [of now "nat (stats_days (req_days r))" "CLICKS e"] sd by simp
  have v: "values_upto 0 []"
    by (simp add: values_upto_def)
  have l: "list_all (\<lambda>c. inherited (fst c) = None \<and> snd c = Fin (fin_count c) \<and> 0 \<le> fin_count c) ?w"
    and s: "0 + sum_list (map fin_count ?w) \<le> 2 ^ 53"
    using assms(4) by (simp_all add: small_counts_def)
  have "\<forall>a. map_of obj a =
       (if a \<in> fst ` set ?w then Some (Num (Fin (tally [] a + total_for ?w a))) else map_of [] a)"
    unfolding o using v _ l s by (rule add_all_sums) simp
  then have "\<forall>a. map_of obj a = (if a \<in> fst ` set ?w then Some (Num (Fin (total_for ?w a))) else None)"
    by (simp add: tally_def)
  then show ?thesis
    using f by blast
qed

section \<open>Aggregation over the window (C2)\<close>

lemma day_prefix_today: "day_prefix 1704153600000 0 = ''click:2024-01-02:''"
  by code_simp

lemma day_prefix_yesterday: "day_prefix 1704153600000 (Suc 0) = ''click:2024-01-01:''"
  by code_simp

lemma count_of_examples:
  "count_of (Some ''3'') = Fin 3" "count_of (Some ''2'') = Fin 2" "count_of (Some ''5'') = Fin 5"
  "count_of (Some ''4'') = Fin 4" "count_of (Some ''7'') = Fin 7"
  by (simp_all add: count_of_def parse_defs to_f64_small)

lemma js_String_examples: "js_String (Fin 4) = ''4''" "js_String (Fin 7) = ''7''"
  by (simp_all add: js_String_small dec.simps digit_char_def)

text \<open>
  C2. The claim: an authorized \<open>GET /stats\<close> scans the keys under \<open>click:<date>:\<close> for
  each of the most recent \<open>days\<close> dates, following the cursor, sums the counts per
  \<open>ad_id\<close> and answers 200 with \<open>{days, by_ad_id}\<close>, for every store. The worker does so
  for the counters of the claim's example (\<open>a1\<close>: 3 + 2, \<open>b2\<close>: 5, read in pages of one
  name), and for every store whose counted \<open>ad_id\<close>s name no member of
  \<open>Object.prototype\<close> and whose counts add up to at most \<open>2^53\<close> (\<open>stats_sums\<close>). But \<open>by_ad_id\<close> is a plain object: for an \<open>ad_id\<close> that names a member of
  \<open>Object.prototype\<close> the first read finds the inherited member, not \<open>undefined\<close>, and
  the sum becomes a string. With the counters \<open>constructor\<close> = 4 and \<open>__proto__\<close> = 7
  beside them, on 2024-01-02, the answer holds a string under \<open>constructor\<close> and nothing
  under \<open>__proto__\<close>.
\<close>

theorem stats_inherited_names:
  "fst (fetch 1704153600000 (stats_req ''Bearer s'' (Some ''2''))
     \<lparr>STATS_TOKEN = Some ''s'',
      CLICKS = \<lparr>entries = [(''click:2024-01-01:a1'', \<lparr>content = ''3'', ttl = None\<rparr>),
                           (''click:2024-01-02:a1'', \<lparr>content = ''2'', ttl = None\<rparr>),
                           (''click:2024-01-02:b2'', \<lparr>content = ''5'', ttl = None\<rparr>),
                           (''click:2024-01-02:constructor'', \<lparr>content = ''4'', ttl = None\<rparr>),
                           (''click:2024-01-02:__proto__'', \<lparr>content = ''7'', ttl = None\<rparr>)],
                page_limit = 1, trace = []\<rparr>\<rparr>)
   = Inr \<lparr>status = 200,
          body = StatsJson 2
            [(''a1'', Num (Fin 5)), (''b2'', Num (Fin 5)),
             (''constructor'', Str ''function Object() { [native code] }4'')]\<rparr>"
proof -
  let ?st = "\<lparr>entries = [(''click:2024-01-01:a1'', \<lparr>content = ''3'', ttl = None\<rparr>),
                           (''click:2024-01-02:a1'', \<lparr>content = ''2'', ttl = None\<rparr>),
                           (''click:2024-01-02:b2'', \<lparr>content = ''5'', ttl = None\<rparr>),
                           (''click:2024-01-02:constructor'', \<lparr>content = ''4'', ttl = None\<rparr>),
                           (''click:2024-01-02:__proto__'', \<lparr>content = ''7'', ttl = None\<rparr>)],
                page_limit = 1, trace = []\<rparr>"
  have d: "stats_days (Some ''2'') = 2"
    by (simp add: stats_days_def parse_defs to_f64_small)
  have a: "isAuthed (stats_req ''Bearer s'' (Some ''2'')) \<lparr>STATS_TOKEN = Some ''s'', CLICKS = ?st\<rparr>"
    by (simp add: isAuthed_def stats_req_def)
  have s: "fst (scan_days 1704153600000 2 ?st)
             = [(''a1'', Num (Fin 5)), (''b2'', Num (Fin 5)),
                (''constructor'', Str ''function Object() { [native code] }4'')]"
    by (simp add: scan_days_def day_prefix_today day_prefix_yesterday scan_prefix.simps kv_list_def
          matching_def starts_with_def kv_get_def lookup_def count_of_examples js_String_examples
          add_count_def inherited_def eval_nat_numeral to_f64_small)
  have "fst (handle_stats 1704153600000 (stats_req ''Bearer s'' (Some ''2''))
               \<lparr>STATS_TOKEN = Some ''s'', CLICKS = ?st\<rparr>)
          = Inr \<lparr>status = 200, body = StatsJson 2 (fst (scan_days 1704153600000 2 ?st))\<rparr>"
    using a d by (simp add: handle_stats_def stats_req_def split: prod.splits)
  then show ?thesis
    unfolding s by (simp add: fetch_def stats_req_def)
qed


end
